theory Spec2Isabelle
  imports Complex_Main "HOL-Library.Word" "HOL-Library.Signed_Division"
    "HOL-Library.Multiset" "HOL-Library.Log_Nat"
begin

section \<open>The C data model of mathlib\<close>

text \<open>
  \<^verbatim>\<open>int\<close> is a 32-bit two's-complement integer: \<open>+\<close>, \<open>-\<close> and \<open>*\<close> wrap
  modulo \<open>2 ^ 32\<close>, \<open>sint\<close> reads the signed value. \<^verbatim>\<open>char\<close> is a byte.
  A pointer argument is an \<open>option\<close>: \<open>None\<close> is \<^verbatim>\<open>NULL\<close>, \<open>Some buf\<close> points at
  the first cell of the caller's storage \<open>buf\<close>. An access outside that storage is a
  fault; functions that mutate return the storage as they leave it.
\<close>

type_synonym c_int = "32 word"
type_synonym c_char = "8 word"

datatype fault = OutOfBounds

subsection \<open>Basic math operations\<close>

definition add :: "c_int \<Rightarrow> c_int \<Rightarrow> c_int" where
  "add a b = a + b"

definition subtract :: "c_int \<Rightarrow> c_int \<Rightarrow> c_int" where
  "subtract a b = a - b"


subsection \<open>Array cells addressed by an \<^verbatim>\<open>int\<close> index\<close>

text \<open>
  \<^verbatim>\<open>p[i]\<close> with \<open>i\<close> an \<^verbatim>\<open>int\<close> addresses cell \<open>sint i\<close> of the storage \<open>p\<close> points
  at; the access is inside the storage when \<open>in_bounds\<close> holds. \<^verbatim>\<open>len / 2\<close> on
  \<^verbatim>\<open>int\<close> truncates towards zero.
\<close>

definition idx :: "c_int \<Rightarrow> nat" where
  "idx i = nat (sint i)"

definition in_bounds :: "'a list \<Rightarrow> c_int \<Rightarrow> bool" where
  "in_bounds buf i = (0 \<le> sint i \<and> nat (sint i) < length buf)"

definition c_sdiv :: "c_int \<Rightarrow> c_int \<Rightarrow> c_int" where
  "c_sdiv a b = word_of_int (sint a sdiv sint b)"

subsection \<open>String operations\<close>

definition get_version :: "string" where
  "get_version = ''MathLib v1.0.0''"

text \<open>The bytes of a string literal, with the terminating NUL.\<close>

definition c_str :: "string \<Rightarrow> c_char list" where
  "c_str s = map (\<lambda>c. word_of_nat (of_char c)) s @ [0]"

text \<open>
  \<^verbatim>\<open>strlen\<close> counts the bytes before the first NUL. Storage that holds no NUL is read
  past its end. The count is a \<^verbatim>\<open>size_t\<close>; \<open>string_length\<close> casts it to \<^verbatim>\<open>int\<close> and
  \<open>reverse_string\<close> stores it in an \<^verbatim>\<open>int\<close>, which keeps the low 32 bits.
\<close>

fun strlen :: "c_char list \<Rightarrow> fault + nat" where
  "strlen [] = Inl OutOfBounds"
| "strlen (c # cs) =
     (if c = 0 then Inr 0
      else (case strlen cs of Inl e \<Rightarrow> Inl e | Inr n \<Rightarrow> Inr (Suc n)))"

definition string_length :: "c_char list option \<Rightarrow> fault + c_int" where
  "string_length str =
     (case str of
        None \<Rightarrow> Inr 0
      | Some buf \<Rightarrow>
          (case strlen buf of Inl e \<Rightarrow> Inl e | Inr n \<Rightarrow> Inr (word_of_nat n)))"

function reverse_loop :: "c_char list \<Rightarrow> c_int \<Rightarrow> c_int \<Rightarrow> fault + c_char list" where
  "reverse_loop str len i =
     (if i <s c_sdiv len 2 then
        (if in_bounds str i \<and> in_bounds str (len - 1 - i) then
           (let temp = str ! idx i;
                str1 = str[idx i := str ! idx (len - 1 - i)];
                str2 = str1[idx (len - 1 - i) := temp]
            in reverse_loop str2 len (i + 1))
         else Inl OutOfBounds)
      else Inr str)"
  by pat_completeness auto
termination
proof (relation "measure (\<lambda>(str, len, i). nat (sint (c_sdiv len 2) - sint i))")
  show "wf (measure (\<lambda>(str, len, i). nat (sint (c_sdiv len 2) - sint i)))"
    by simp
next
  fix str xb :: "c_char list" and len i :: c_int
  assume less: "i <s c_sdiv len 2"
  have "sint (c_sdiv len 2) < 2 ^ 31"
    using sint_lt [of "c_sdiv len 2"] by simp
  moreover have "- (2 ^ 31) \<le> sint i"
    using sint_ge [of i] by simp
  moreover have "sint i < sint (c_sdiv len 2)"
    using less by (simp add: word_sless_alt)
  ultimately have "sint (i + 1) = sint i + 1"
    by (simp add: sint_word_ariths signed_take_bit_int_eq_self)
  then show "((xb, len, i + 1), (str, len, i))
      \<in> measure (\<lambda>(str, len, i). nat (sint (c_sdiv len 2) - sint i))"
    using \<open>sint i < sint (c_sdiv len 2)\<close> by simp
qed

definition reverse_string :: "c_char list option \<Rightarrow> fault + c_char list option" where
  "reverse_string str =
     (case str of
        None \<Rightarrow> Inr None
      | Some buf \<Rightarrow>
          (case buf of
             [] \<Rightarrow> Inl OutOfBounds
           | c # _ \<Rightarrow>
               if c = 0 then Inr (Some buf)
               else (case strlen buf of
                       Inl e \<Rightarrow> Inl e
                     | Inr n \<Rightarrow>
                         (case reverse_loop buf (word_of_nat n) 0 of
                            Inl e \<Rightarrow> Inl e
                          | Inr buf' \<Rightarrow> Inr (Some buf')))))"

text \<open>
  The storage after \<open>j\<close> rounds of the reversal loop over the first \<open>k\<close> cells: the
  outer \<open>j\<close> cells on either side are exchanged, the rest is as it was.
\<close>

definition part_rev :: "'a list \<Rightarrow> nat \<Rightarrow> nat \<Rightarrow> 'a list" where
  "part_rev buf k j =
     map (\<lambda>p. if p < j \<or> (k - j \<le> p \<and> p < k) then buf ! (k - 1 - p) else buf ! p)
       [0..<length buf]"

text \<open>How many leading characters the loop reverses: the length as the \<^verbatim>\<open>int\<close> sees it.\<close>

definition reversed_prefix :: "nat \<Rightarrow> nat" where
  "reversed_prefix n = nat (sint (word_of_nat n :: c_int))"

subsection \<open>Callbacks\<close>

text \<open>
  A \<^verbatim>\<open>math_callback\<close> is caller-supplied code: it returns an \<^verbatim>\<open>int\<close> and may change
  the caller's world \<open>'s\<close>. \<open>None\<close> is the null function pointer.
\<close>

type_synonym 's math_callback = "c_int \<Rightarrow> c_int \<Rightarrow> 's \<Rightarrow> c_int \<times> 's"

definition apply_operation ::
  "c_int \<Rightarrow> c_int \<Rightarrow> 's math_callback option \<Rightarrow> 's \<Rightarrow> c_int \<times> 's" where
  "apply_operation a b callback s =
     (case callback of None \<Rightarrow> (0, s) | Some f \<Rightarrow> f a b s)"

text \<open>Two callbacks a caller may pass: a pure function, and one that records its calls.\<close>

definition pure_callback :: "(c_int \<Rightarrow> c_int \<Rightarrow> c_int) \<Rightarrow> 's math_callback" where
  "pure_callback f = (\<lambda>a b s. (f a b, s))"

definition recording ::
  "'s math_callback \<Rightarrow> ('s \<times> (c_int \<times> c_int) list) math_callback" where
  "recording f = (\<lambda>a b (s, calls).
     (fst (f a b s), (snd (f a b s), calls @ [(a, b)])))"

subsection \<open>Array operations\<close>

function sum_loop :: "c_int list \<Rightarrow> c_int \<Rightarrow> c_int \<Rightarrow> c_int \<Rightarrow> fault + c_int" where
  "sum_loop arr sz i acc =
     (if i <s sz then
        (if in_bounds arr i then sum_loop arr sz (i + 1) (acc + arr ! idx i)
         else Inl OutOfBounds)
      else Inr acc)"
  by pat_completeness auto
termination
proof (relation "measure (\<lambda>(arr, sz, i, acc). nat (sint sz - sint i))")
  show "wf (measure (\<lambda>(arr, sz, i, acc). nat (sint sz - sint i)))"
    by simp
next
  fix arr :: "c_int list" and sz i acc :: c_int
  assume less: "i <s sz"
  have "sint sz < 2 ^ 31"
    using sint_lt [of sz] by simp
  moreover have "- (2 ^ 31) \<le> sint i"
    using sint_ge [of i] by simp
  moreover have "sint i < sint sz"
    using less by (simp add: word_sless_alt)
  ultimately have "sint (i + 1) = sint i + 1"
    by (simp add: sint_word_ariths signed_take_bit_int_eq_self)
  then show "((arr, sz, i + 1, acc + arr ! idx i), (arr, sz, i, acc))
      \<in> measure (\<lambda>(arr, sz, i, acc). nat (sint sz - sint i))"
    using \<open>sint i < sint sz\<close> by simp
qed

definition sum_array :: "c_int list option \<Rightarrow> c_int \<Rightarrow> fault + c_int" where
  "sum_array arr sz =
     (case arr of
        None \<Rightarrow> Inr 0
      | Some a \<Rightarrow> if sz \<le>s 0 then Inr 0 else sum_loop a sz 0 0)"

function double_loop :: "c_int list \<Rightarrow> c_int \<Rightarrow> c_int \<Rightarrow> fault + c_int list" where
  "double_loop arr sz i =
     (if i <s sz then
        (if in_bounds arr i then double_loop (arr[idx i := arr ! idx i * 2]) sz (i + 1)
         else Inl OutOfBounds)
      else Inr arr)"
  by pat_completeness auto
termination
proof (relation "measure (\<lambda>(arr, sz, i). nat (sint sz - sint i))")
  show "wf (measure (\<lambda>(arr, sz, i). nat (sint sz - sint i)))"
    by simp
next
  fix arr :: "c_int list" and sz i :: c_int
  assume less: "i <s sz"
  have "sint sz < 2 ^ 31"
    using sint_lt [of sz] by simp
  moreover have "- (2 ^ 31) \<le> sint i"
    using sint_ge [of i] by simp
  moreover have "sint i < sint sz"
    using less by (simp add: word_sless_alt)
  ultimately have "sint (i + 1) = sint i + 1"
    by (simp add: sint_word_ariths signed_take_bit_int_eq_self)
  then show "((arr[idx i := arr ! idx i * 2], sz, i + 1), (arr, sz, i))
      \<in> measure (\<lambda>(arr, sz, i). nat (sint sz - sint i))"
    using \<open>sint i < sint sz\<close> by simp
qed

definition double_array :: "c_int list option \<Rightarrow> c_int \<Rightarrow> fault + c_int list option" where
  "double_array arr sz =
     (case arr of
        None \<Rightarrow> Inr None
      | Some a \<Rightarrow>
          if sz \<le>s 0 then Inr (Some a)
          else (case double_loop a sz 0 of
                  Inl e \<Rightarrow> Inl e
                | Inr a' \<Rightarrow> Inr (Some a')))"

subsection \<open>Double-precision numbers\<close>

text \<open>
  \<^verbatim>\<open>double\<close> is IEEE 754 binary64. A finite number is a sign (\<open>True\<close> is minus), a
  significand \<open>m\<close> and the exponent \<open>e\<close> of its last place: its value is \<open>m * 2 ^ e\<close>.
  The numbers of the format are those of \<open>is_double\<close>: 53 bits of significand, the
  exponent of the last place from \<open>-1074\<close> (subnormal numbers and the smallest binade)
  to \<open>971\<close>. Both zeros are finite numbers; the NaNs are one value. Every operator
  rounds its exact result to the format, to nearest with ties to even, which is the
  rounding mode a C program starts in: no operation keeps extra precision and no
  product is fused with a sum.
\<close>

datatype double = NaN | Infinity bool | Finite bool nat int

fun is_double :: "double \<Rightarrow> bool" where
  "is_double (Finite s m e) =
     (m < 2 ^ 53 \<and> - 1074 \<le> e \<and> e \<le> 971 \<and> (e = - 1074 \<or> 2 ^ 52 \<le> m))"
| "is_double _ = True"

fun is_finite :: "double \<Rightarrow> bool" where
  "is_finite (Finite s m e) = True"
| "is_finite _ = False"

definition dval :: "double \<Rightarrow> real" where
  "dval a =
     (case a of
        Finite s m e \<Rightarrow> (if s then - 1 else 1) * real m * 2 powi e
      | _ \<Rightarrow> 0)"

definition zero :: "bool \<Rightarrow> double" where
  "zero s = Finite s 0 (- 1074)"

text \<open>The literal \<^verbatim>\<open>0.0\<close>.\<close>

definition pzero :: "double" where
  "pzero = zero False"

text \<open>A whole number below \<open>2 ^ 53\<close> as a double, as a C literal such as \<^verbatim>\<open>3.0\<close> denotes it.\<close>

definition shift_up :: "nat \<Rightarrow> nat" where
  "shift_up n = nat (53 - bitlen (int n))"

definition of_whole :: "nat \<Rightarrow> double" where
  "of_whole n = (if n = 0 then pzero else Finite False (n * 2 ^ shift_up n) (- int (shift_up n)))"

text \<open>
  Rounding the positive fraction \<open>p / q * 2 ^ e\<close> to the format. \<open>scale\<close> writes
  \<open>p / q * 2 ^ d\<close> as a fraction of whole numbers; the exponent \<open>k\<close> of the last place
  is the one that leaves 53 bits in front of it, and at least \<open>-1074\<close>; a significand
  that rounds up to \<open>2 ^ 53\<close> moves to the next binade, beyond the last binade lies
  infinity.
\<close>

definition scale :: "nat \<Rightarrow> nat \<Rightarrow> int \<Rightarrow> nat \<times> nat" where
  "scale p q d = (if 0 \<le> d then (p * 2 ^ nat d, q) else (p, q * 2 ^ nat (- d)))"

definition round_to_even :: "nat \<times> nat \<Rightarrow> nat" where
  "round_to_even f =
     (let n = fst f div snd f; r = fst f mod snd f
      in if 2 * r < snd f then n
         else if snd f < 2 * r then n + 1
         else if even n then n else n + 1)"

definition last_place :: "nat \<Rightarrow> nat \<Rightarrow> int \<Rightarrow> int" where
  "last_place p q e =
     (let e0 = bitlen (int p) - bitlen (int q) + e - 53;
          f0 = scale p q (e - e0);
          e1 = (if 2 ^ 53 * snd f0 \<le> fst f0 then e0 + 1 else e0)
      in max e1 (- 1074))"

definition finish :: "bool \<Rightarrow> nat \<Rightarrow> int \<Rightarrow> double" where
  "finish s n k =
     (if n = 2 ^ 53 then (if 971 < k + 1 then Infinity s else Finite s (2 ^ 52) (k + 1))
      else if 971 < k then Infinity s
      else Finite s n k)"

definition round_double :: "bool \<Rightarrow> nat \<Rightarrow> nat \<Rightarrow> int \<Rightarrow> double" where
  "round_double s p q e =
     (let k = last_place p q e
      in finish s (round_to_even (scale p q (e - k))) k)"

text \<open>The significand with its sign, moved \<open>d\<close> places up.\<close>

definition with_sign :: "bool \<Rightarrow> nat \<Rightarrow> int \<Rightarrow> int" where
  "with_sign s m d = (if s then - 1 else 1) * int m * 2 ^ nat d"

text \<open>The C operators \<^verbatim>\<open>==\<close>, unary \<^verbatim>\<open>-\<close>, \<^verbatim>\<open>+\<close>, \<^verbatim>\<open>-\<close>, \<^verbatim>\<open>*\<close>, \<^verbatim>\<open>/\<close> on \<^verbatim>\<open>double\<close>.\<close>

fun deq :: "double \<Rightarrow> double \<Rightarrow> bool" where
  "deq (Finite s m e) (Finite t n f) =
     (with_sign s m (e - min e f) = with_sign t n (f - min e f))"
| "deq (Infinity s) (Infinity t) = (s = t)"
| "deq _ _ = False"

fun dneg :: "double \<Rightarrow> double" where
  "dneg NaN = NaN"
| "dneg (Infinity s) = Infinity (\<not> s)"
| "dneg (Finite s m e) = Finite (\<not> s) m e"

fun dadd :: "double \<Rightarrow> double \<Rightarrow> double" where
  "dadd (Finite s m e) (Finite t n f) =
     (let k = min e f; c = with_sign s m (e - k) + with_sign t n (f - k)
      in if c = 0 then zero (s \<and> t) else round_double (c < 0) (nat \<bar>c\<bar>) 1 k)"
| "dadd (Finite s m e) (Infinity t) = Infinity t"
| "dadd (Infinity s) (Finite t n f) = Infinity s"
| "dadd (Infinity s) (Infinity t) = (if s = t then Infinity s else NaN)"
| "dadd _ _ = NaN"

definition dsub :: "double \<Rightarrow> double \<Rightarrow> double" where
  "dsub a b = dadd a (dneg b)"

fun dmul :: "double \<Rightarrow> double \<Rightarrow> double" where
  "dmul (Finite s m e) (Finite t n f) =
     (if m = 0 \<or> n = 0 then zero (s \<noteq> t) else round_double (s \<noteq> t) (m * n) 1 (e + f))"
| "dmul (Finite s m e) (Infinity t) = (if m = 0 then NaN else Infinity (s \<noteq> t))"
| "dmul (Infinity s) (Finite t n f) = (if n = 0 then NaN else Infinity (s \<noteq> t))"
| "dmul (Infinity s) (Infinity t) = Infinity (s \<noteq> t)"
| "dmul _ _ = NaN"

fun ddiv :: "double \<Rightarrow> double \<Rightarrow> double" where
  "ddiv (Finite s m e) (Finite t n f) =
     (if n = 0 then (if m = 0 then NaN else Infinity (s \<noteq> t))
      else if m = 0 then zero (s \<noteq> t)
      else round_double (s \<noteq> t) m n (e - f))"
| "ddiv (Finite s m e) (Infinity t) = zero (s \<noteq> t)"
| "ddiv (Infinity s) (Finite t n f) = Infinity (s \<noteq> t)"
| "ddiv _ _ = NaN"

text \<open>
  \<^verbatim>\<open>sqrt\<close> of \<^verbatim>\<open>math.h\<close> is the correctly rounded square root. \<open>isqrt\<close> is the whole
  part of the root, found bit by bit from above. The root of a positive double
  \<open>m * 2 ^ e\<close> is taken of the whole number \<open>m * 2 ^ (e - 2 * f)\<close>, which has 105 or 106
  bits, so that its root has 53; it is rounded up when it lies above the middle
  \<open>n + 1 / 2\<close>, that is when the remainder \<open>x - n * n\<close> exceeds \<open>n\<close>.
\<close>

fun isqrt_bits :: "nat \<Rightarrow> nat \<Rightarrow> nat \<Rightarrow> nat" where
  "isqrt_bits x 0 r = r"
| "isqrt_bits x (Suc k) r =
     isqrt_bits x k (if (r + 2 ^ k) * (r + 2 ^ k) \<le> x then r + 2 ^ k else r)"

definition isqrt :: "nat \<Rightarrow> nat" where
  "isqrt x = isqrt_bits x (nat (bitlen (int x))) 0"

definition sqrt_round :: "nat \<Rightarrow> int \<Rightarrow> double" where
  "sqrt_round m e =
     (let f = (bitlen (int m) + e - 105) div 2;
          x = m * 2 ^ nat (e - 2 * f);
          n = isqrt x
      in finish False (if n < x - n * n then n + 1 else n) f)"

fun dsqrt :: "double \<Rightarrow> double" where
  "dsqrt NaN = NaN"
| "dsqrt (Infinity s) = (if s then NaN else Infinity False)"
| "dsqrt (Finite s m e) =
     (if m = 0 then zero s else if s then NaN else sqrt_round m e)"

subsection \<open>Operations on doubles\<close>

definition multiply_double :: "double \<Rightarrow> double \<Rightarrow> double" where
  "multiply_double a b = dmul a b"

definition divide_double :: "double \<Rightarrow> double \<Rightarrow> double" where
  "divide_double a b = (if deq b pzero then pzero else ddiv a b)"

subsection \<open>Struct operations\<close>

record Point =
  x :: double
  y :: double

definition distance :: "Point option \<Rightarrow> Point option \<Rightarrow> double" where
  "distance p1 p2 =
     (case (p1, p2) of
        (Some a, Some b) \<Rightarrow>
          (let dx = dsub (x b) (x a);
               dy = dsub (y b) (y a)
           in dsqrt (dadd (dmul dx dx) (dmul dy dy)))
      | _ \<Rightarrow> pzero)"

definition translate_point :: "Point option \<Rightarrow> double \<Rightarrow> double \<Rightarrow> Point option" where
  "translate_point p dx dy =
     (case p of
        None \<Rightarrow> None
      | Some a \<Rightarrow> Some (a\<lparr>x := dadd (x a) dx, y := dadd (y a) dy\<rparr>))"

subsection \<open>Notions for the properties of the operations on doubles\<close>

text \<open>
  The distance of the plane between the points that two structs denote, over the
  reals, and the doubles that are a number not below zero, or plus infinity.
\<close>

definition euclidean :: "Point \<Rightarrow> Point \<Rightarrow> real" where
  "euclidean a b = sqrt ((dval (x b) - dval (x a))\<^sup>2 + (dval (y b) - dval (y a))\<^sup>2)"

fun not_below_zero :: "double \<Rightarrow> bool" where
  "not_below_zero NaN = False"
| "not_below_zero (Infinity s) = (\<not> s)"
| "not_below_zero (Finite s m e) = (\<not> s)"

text \<open>
  For the accuracy of \<open>distance\<close>: the value of the fraction that \<open>round_double\<close>
  rounds; the unit roundoff of the format; a value that lies within \<open>k\<close> roundings of
  another one; and the coordinate differences whose squares neither overflow nor
  leave the normal range.
\<close>

definition rv :: "nat \<Rightarrow> nat \<Rightarrow> int \<Rightarrow> real" where
  "rv p q e = real p / real q * 2 powi e"

definition unit_roundoff :: real where
  "unit_roundoff = 1 / 2 ^ 53"

definition rel_close :: "nat \<Rightarrow> real \<Rightarrow> real \<Rightarrow> bool" where
  "rel_close k v w = (w * (1 - unit_roundoff) ^ k \<le> v \<and> v \<le> w * (1 + unit_roundoff) ^ k)"

definition moderate :: "real \<Rightarrow> bool" where
  "moderate v = (v = 0 \<or> 2 powi (- 500) \<le> \<bar>v\<bar> \<and> \<bar>v\<bar> \<le> 2 powi 500)"

section \<open>Properties\<close>

subsection \<open>Loop counters and the reversal loop\<close>

lemma sint_succ_below: "i <s (b :: c_int) \<Longrightarrow> sint (i + 1) = sint i + 1"
proof -
  assume less: "i <s b"
  have "sint b < 2 ^ 31"
    using sint_lt [of b] by simp
  moreover have "- (2 ^ 31) \<le> sint i"
    using sint_ge [of i] by simp
  moreover have "sint i < sint b"
    using less by (simp add: word_sless_alt)
  ultimately show "sint (i + 1) = sint i + 1"
    by (simp add: sint_word_ariths signed_take_bit_int_eq_self)
qed

lemma length_part_rev: "length (part_rev buf k j) = length buf"
  by (simp add: part_rev_def)

lemma nth_part_rev:
  "p < length buf \<Longrightarrow>
   part_rev buf k j ! p
     = (if p < j \<or> (k - j \<le> p \<and> p < k) then buf ! (k - 1 - p) else buf ! p)"
  by (simp add: part_rev_def)

lemma part_rev_0: "part_rev buf k 0 = buf"
  by (rule nth_equalityI) (auto simp add: length_part_rev nth_part_rev)

lemma part_rev_step:
  assumes "j < k div 2" and "k \<le> length buf"
  shows "(part_rev buf k j)[j := part_rev buf k j ! (k - 1 - j),
            k - 1 - j := part_rev buf k j ! j]
         = part_rev buf k (Suc j)"
proof (rule nth_equalityI)
  show "length ((part_rev buf k j)[j := part_rev buf k j ! (k - 1 - j),
            k - 1 - j := part_rev buf k j ! j]) = length (part_rev buf k (Suc j))"
    by (simp add: length_part_rev)
next
  fix p
  assume "p < length ((part_rev buf k j)[j := part_rev buf k j ! (k - 1 - j),
            k - 1 - j := part_rev buf k j ! j])"
  then have p: "p < length buf"
    by (simp add: length_part_rev)
  have j: "j < length buf" "k - 1 - j < length buf" "j < k - 1 - j"
    using assms by auto
  consider "p = j" | "p = k - 1 - j" | "p \<noteq> j" "p \<noteq> k - 1 - j"
    by blast
  then show "(part_rev buf k j)[j := part_rev buf k j ! (k - 1 - j),
            k - 1 - j := part_rev buf k j ! j] ! p = part_rev buf k (Suc j) ! p"
  proof cases
    case 1
    then show ?thesis
      using j assms by (simp add: length_part_rev nth_part_rev)
  next
    case 2
    have "k - j \<le> j \<Longrightarrow> False"
      using assms by arith
    then show ?thesis
      using 2 j assms by (auto simp add: length_part_rev nth_part_rev)
  next
    case 3
    then show ?thesis
      using p j assms by (auto simp add: length_part_rev nth_part_rev)
  qed
qed

lemma part_rev_half:
  assumes "k \<le> length buf"
  shows "part_rev buf k (k div 2) = rev (take k buf) @ drop k buf"
proof (rule nth_equalityI)
  show "length (part_rev buf k (k div 2)) = length (rev (take k buf) @ drop k buf)"
    using assms by (simp add: length_part_rev)
next
  fix p
  assume "p < length (part_rev buf k (k div 2))"
  then have p: "p < length buf"
    by (simp add: length_part_rev)
  show "part_rev buf k (k div 2) ! p = (rev (take k buf) @ drop k buf) ! p"
  proof (cases "p < k")
    case True
    have "\<not> p < k div 2 \<Longrightarrow> \<not> k - k div 2 \<le> p \<Longrightarrow> k - 1 - p = p"
      by arith
    then have "part_rev buf k (k div 2) ! p = buf ! (k - 1 - p)"
      using p True by (simp add: nth_part_rev del: One_nat_def)
    moreover have "(rev (take k buf) @ drop k buf) ! p = buf ! (k - 1 - p)"
      using True assms by (simp add: nth_append rev_nth)
    ultimately show ?thesis by simp
  next
    case False
    then have "\<not> p < k div 2"
      by arith
    then show ?thesis
      using False p assms by (simp add: nth_part_rev nth_append)
  qed
qed

lemma sint_c_sdiv_2: "sint (c_sdiv len 2) = sint len sdiv 2"
proof -
  have "- (2 ^ 31) \<le> sint len" "sint len < 2 ^ 31"
    using sint_ge [of len] sint_lt [of len] by simp_all
  then have "- (2 ^ 31) \<le> sint len sdiv 2 \<and> sint len sdiv 2 < 2 ^ 31"
    by (auto simp add: signed_divide_int_def sgn_if)
  then show ?thesis
    by (simp add: c_sdiv_def sint_sbintrunc' signed_take_bit_int_eq_self)
qed

lemma reverse_loop_part_rev:
  "str = part_rev buf (nat (sint len)) j \<Longrightarrow> sint i = int j \<Longrightarrow>
   0 \<le> sint len \<Longrightarrow> nat (sint len) \<le> length buf \<Longrightarrow> j \<le> nat (sint len) div 2 \<Longrightarrow>
   reverse_loop str len i = Inr (part_rev buf (nat (sint len)) (nat (sint len) div 2))"
proof (induction str len i arbitrary: j rule: reverse_loop.induct)
  case (1 str len i)
  let ?k = "nat (sint len)"
  have half: "sint (c_sdiv len 2) = int (?k div 2)"
    using "1.prems"(3) by (simp add: sint_c_sdiv_2 signed_divide_int_def sgn_if zdiv_int)
  show ?case
  proof (cases "i <s c_sdiv len 2")
    case True
    then have lt: "j < ?k div 2"
      using half "1.prems"(2) by (simp add: word_sless_alt)
    have succ: "sint (i + 1) = int (Suc j)"
      using sint_succ_below [OF True] "1.prems"(2) by simp
    have klen: "sint len = int ?k"
      using "1.prems"(3) by simp
    have jk: "int j + 1 < int ?k"
      using lt by arith
    have other: "sint (len - 1 - i) = int (?k - 1 - j)"
    proof -
      have "sint len < 2 ^ 31"
        using sint_lt [of len] by simp
      then have r1: "- (2 ^ 31) \<le> sint len - 1" "sint len - 1 < 2 ^ 31"
        and r2: "- (2 ^ 31) \<le> sint len - 1 - sint i" "sint len - 1 - sint i < 2 ^ 31"
        using jk klen "1.prems"(2) by linarith+
      have "sint (len - 1) = sint len - 1"
        using r1 by (simp add: sint_word_ariths signed_take_bit_int_eq_self)
      then have "sint (len - 1 - i) = sint len - 1 - sint i"
        using r2 sint_word_diff [of "len - 1" i]
        by (simp add: signed_take_bit_int_eq_self)
      also have "\<dots> = int (?k - 1 - j)"
        using jk klen "1.prems"(2) by linarith
      finally show ?thesis .
    qed
    have "j < length buf" "?k - 1 - j < length buf"
      using lt "1.prems"(4) by arith+
    then have inb: "in_bounds str i \<and> in_bounds str (len - 1 - i)"
      using "1.prems"(1,2) other by (simp add: in_bounds_def length_part_rev)
    have idx: "idx i = j" "idx (len - 1 - i) = ?k - 1 - j"
      using "1.prems"(2) other by (simp_all add: idx_def)
    have next_state: "str[j := str ! (?k - 1 - j), ?k - 1 - j := str ! j]
        = part_rev buf ?k (Suc j)"
      using part_rev_step [OF lt "1.prems"(4)] "1.prems"(1) by simp
    have "reverse_loop (str[j := str ! (?k - 1 - j), ?k - 1 - j := str ! j]) len (i + 1)
        = Inr (part_rev buf ?k (?k div 2))"
      using "1.IH" [OF True inb refl refl refl, of "Suc j"] idx next_state succ "1.prems" lt
      by simp
    then show ?thesis
      using True inb idx by (simp add: Let_def)
  next
    case False
    then have "j = ?k div 2"
      using half "1.prems" by (simp add: word_sless_alt)
    then show ?thesis
      using False "1.prems"(1) by simp
  qed
qed

subsection \<open>Strings\<close>

lemma strlen_append: "0 \<notin> set s \<Longrightarrow> strlen (s @ 0 # rest) = Inr (length s)"
  by (induction s) auto

lemma sint_of_nat_c_int: "sint (word_of_nat n :: c_int) = signed_take_bit 31 (int n)"
  using signed_of_nat [of n, where ?'b = 32 and ?'a = int] by simp

lemma sint_of_nat_small: "n < 2 ^ 31 \<Longrightarrow> sint (word_of_nat n :: c_int) = int n"
  by (simp add: sint_of_nat_c_int signed_take_bit_int_eq_self)

lemma nat_sint_of_nat_le: "nat (sint (word_of_nat n :: c_int)) \<le> n"
proof -
  have "signed_take_bit 31 (int n) \<le> int n"
    by (simp add: signed_take_bit_int_less_eq_self_iff)
  then show ?thesis
    by (simp add: sint_of_nat_c_int)
qed

lemma reverse_loop_prefix:
  assumes "nat (sint len) \<le> length buf"
  shows "reverse_loop buf len 0
    = Inr (rev (take (nat (sint len)) buf) @ drop (nat (sint len)) buf)"
proof (cases "0 \<le> sint len")
  case True
  have "reverse_loop buf len 0
      = Inr (part_rev buf (nat (sint len)) (nat (sint len) div 2))"
    using reverse_loop_part_rev [of buf buf len 0 0] True assms
    by (simp add: part_rev_0)
  then show ?thesis
    using assms by (simp add: part_rev_half)
next
  case False
  then have "sint len sdiv 2 \<le> 0"
    by (simp add: signed_divide_int_def sgn_if)
  then have "\<not> 0 <s c_sdiv len 2"
    by (simp add: word_sless_alt sint_c_sdiv_2)
  then show ?thesis
    using False by simp
qed

lemma reverse_string_c_string:
  assumes "0 \<notin> set s"
  shows "reverse_string (Some (s @ 0 # rest))
    = Inr (Some (rev (take (reversed_prefix (length s)) s)
                 @ drop (reversed_prefix (length s)) s @ 0 # rest))"
proof (cases s)
  case Nil
  then show ?thesis
    by (simp add: reverse_string_def)
next
  case (Cons c cs)
  let ?k = "reversed_prefix (length s)"
  have k: "?k \<le> length s"
    by (simp add: reversed_prefix_def nat_sint_of_nat_le)
  have c: "c \<noteq> 0"
    using assms Cons by auto
  have "reverse_loop (s @ 0 # rest) (word_of_nat (length s)) 0
      = Inr (rev (take ?k (s @ 0 # rest)) @ drop ?k (s @ 0 # rest))"
    unfolding reversed_prefix_def
    by (rule reverse_loop_prefix) (use k in \<open>simp add: reversed_prefix_def\<close>)
  then have "reverse_loop (s @ 0 # rest) (word_of_nat (length s)) 0
      = Inr (rev (take ?k s) @ drop ?k s @ 0 # rest)"
    using k by simp
  moreover have "strlen (s @ 0 # rest) = Inr (length s)"
    using assms by (rule strlen_append)
  ultimately show ?thesis
    using c Cons by (simp add: reverse_string_def)
qed

lemma reversed_prefix_small: "n < 2 ^ 31 \<Longrightarrow> reversed_prefix n = n"
  by (simp add: reversed_prefix_def sint_of_nat_small)


lemma mset_prefix_rev: "mset (rev (take k s) @ drop k s) = mset s"
proof -
  have "mset (rev (take k s) @ drop k s) = mset (take k s @ drop k s)"
    by (simp del: append_take_drop_id)
  then show ?thesis
    by simp
qed

lemma rev_b_as: "0 < n \<Longrightarrow> rev (98 # replicate n (97 :: c_char)) \<noteq> 98 # replicate n 97"
proof
  assume n: "0 < n" and eq: "rev (98 # replicate n (97 :: c_char)) = 98 # replicate n 97"
  have a: "last (rev (98 # replicate n (97 :: c_char))) = 98"
    by simp
  have b: "last (98 # replicate n (97 :: c_char)) = 97"
    using n by simp
  have "last (rev (98 # replicate n (97 :: c_char))) = last (98 # replicate n (97 :: c_char))"
    using eq by (rule arg_cong)
  then have "(98 :: c_char) = 97"
    by (simp only: a b)
  then show False
    by simp
qed

lemma reverse_string_unchanged:
  assumes "0 \<notin> set s" and "reversed_prefix (length s) = 0"
  shows "reverse_string (Some (s @ 0 # rest)) = Inr (Some (s @ 0 # rest))"
  using reverse_string_c_string [OF assms(1), of rest] assms(2) by simp

lemma reversed_prefix_le: "reversed_prefix n \<le> n"
  by (simp add: reversed_prefix_def nat_sint_of_nat_le)

lemma reverse_string_twice:
  assumes "0 \<notin> set s"
  shows "\<exists>buf. reverse_string (Some (s @ 0 # rest)) = Inr (Some buf)
           \<and> reverse_string (Some buf) = Inr (Some (s @ 0 # rest))"
proof -
  let ?k = "reversed_prefix (length s)"
  let ?t = "rev (take ?k s) @ drop ?k s"
  have k: "?k \<le> length s"
    by (rule reversed_prefix_le)
  have first: "reverse_string (Some (s @ 0 # rest)) = Inr (Some (?t @ 0 # rest))"
    using reverse_string_c_string [OF assms, of rest] by simp
  have "mset ?t = mset s"
    by (rule mset_prefix_rev)
  then have "set ?t = set s"
    by (rule mset_eq_setD)
  then have t0: "0 \<notin> set ?t"
    using assms by simp
  have len: "length ?t = length s"
    using k by simp
  have second: "reverse_string (Some (?t @ 0 # rest))
      = Inr (Some ((rev (take ?k ?t) @ drop ?k ?t) @ 0 # rest))"
    using reverse_string_c_string [OF t0, of rest] len by simp
  have "rev (take ?k ?t) @ drop ?k ?t = s"
    using k by simp
  then have "reverse_string (Some (?t @ 0 # rest)) = Inr (Some (s @ 0 # rest))"
    using second by simp
  then show ?thesis
    using first by simp
qed

subsection \<open>The array loops\<close>

lemma sum_loop_drop_take:
  "0 \<le> sint i \<Longrightarrow> sint i \<le> sint sz \<Longrightarrow> nat (sint sz) \<le> length arr \<Longrightarrow>
   sum_loop arr sz i acc = Inr (acc + sum_list (drop (nat (sint i)) (take (nat (sint sz)) arr)))"
proof (induction arr sz i acc rule: sum_loop.induct)
  case (1 arr sz i acc)
  show ?case
  proof (cases "i <s sz")
    case True
    then have lt: "sint i < sint sz"
      by (simp add: word_sless_alt)
    have succ: "sint (i + 1) = sint i + 1"
      using True by (rule sint_succ_below)
    have inb: "in_bounds arr i"
      using lt "1.prems" by (simp add: in_bounds_def)
    have jlt: "nat (sint i) < length (take (nat (sint sz)) arr)"
      using lt "1.prems" by simp
    have split: "drop (nat (sint i)) (take (nat (sint sz)) arr)
        = arr ! idx i # drop (nat (sint (i + 1))) (take (nat (sint sz)) arr)"
      using Cons_nth_drop_Suc [OF jlt, symmetric] lt "1.prems"
      by (simp add: succ idx_def nat_add_distrib)
    have "sum_loop arr sz (i + 1) (acc + arr ! idx i)
        = Inr (acc + arr ! idx i
            + sum_list (drop (nat (sint (i + 1))) (take (nat (sint sz)) arr)))"
      using "1.IH" [OF True inb] "1.prems" lt succ by simp
    then show ?thesis
      using True inb by (simp add: split add.assoc)
  next
    case False
    then have "sint i = sint sz"
      using "1.prems" by (simp add: word_sless_alt)
    then show ?thesis
      using False "1.prems" by simp
  qed
qed

lemma double_loop_map:
  "0 \<le> sint i \<Longrightarrow> sint i \<le> sint sz \<Longrightarrow> nat (sint sz) \<le> length arr \<Longrightarrow>
   double_loop arr sz i
     = Inr (take (nat (sint i)) arr
          @ map (\<lambda>e. e * 2) (drop (nat (sint i)) (take (nat (sint sz)) arr))
          @ drop (nat (sint sz)) arr)"
proof (induction arr sz i rule: double_loop.induct)
  case (1 arr sz i)
  let ?j = "nat (sint i)" and ?n = "nat (sint sz)"
  show ?case
  proof (cases "i <s sz")
    case True
    then have lt: "sint i < sint sz"
      by (simp add: word_sless_alt)
    have succ: "sint (i + 1) = sint i + 1"
      using True by (rule sint_succ_below)
    have inb: "in_bounds arr i"
      using lt "1.prems" by (simp add: in_bounds_def)
    let ?arr' = "arr[idx i := arr ! idx i * 2]"
    have jlen: "?j < length arr" and jn: "?j < ?n"
      using lt "1.prems" by simp_all
    have sucj: "nat (sint (i + 1)) = Suc ?j"
      using succ "1.prems" by (simp add: nat_add_distrib)
    have step: "double_loop ?arr' sz (i + 1)
        = Inr (take (Suc ?j) ?arr'
             @ map (\<lambda>e. e * 2) (drop (Suc ?j) (take ?n ?arr'))
             @ drop ?n ?arr')"
      using "1.IH" [OF True inb] "1.prems" lt succ sucj by simp
    have t1: "take (Suc ?j) ?arr' = take ?j arr @ [arr ! ?j * 2]"
      using jlen by (simp add: idx_def take_Suc_conv_app_nth)
    have t2: "drop (Suc ?j) (take ?n ?arr') = drop (Suc ?j) (take ?n arr)"
      by (simp add: idx_def drop_take)
    have t3: "drop ?n ?arr' = drop ?n arr"
      using jn by (simp add: idx_def)
    have t4: "drop ?j (take ?n arr) = arr ! ?j # drop (Suc ?j) (take ?n arr)"
      using Cons_nth_drop_Suc [of ?j "take ?n arr", symmetric] jlen jn by simp
    show ?thesis
      using True inb step by (simp add: t1 t2 t3 t4)
  next
    case False
    then have "sint i = sint sz"
      using "1.prems" by (simp add: word_sless_alt)
    then show ?thesis
      using False "1.prems" by simp
  qed
qed

lemma uint_sum_list: "uint (sum_list (ws :: c_int list)) = sum_list (map uint ws) mod 2 ^ 32"
proof (induction ws)
  case Nil
  show ?case by simp
next
  case (Cons w ws)
  have "uint (sum_list (w # ws)) = (uint w + uint (sum_list ws)) mod 2 ^ 32"
    by (simp add: uint_word_ariths)
  also have "\<dots> = (uint w + sum_list (map uint ws) mod 2 ^ 32) mod 2 ^ 32"
    by (simp only: Cons.IH)
  also have "\<dots> = (uint w + sum_list (map uint ws)) mod 2 ^ 32"
    by (rule mod_add_right_eq)
  finally show ?case by simp
qed

lemma sum_array_take:
  assumes "0 <s sz" and "nat (sint sz) \<le> length a"
  shows "sum_array (Some a) sz = Inr (sum_list (take (nat (sint sz)) a))"
proof -
  have pos: "0 < sint sz"
    using assms(1) by (simp add: word_sless_alt)
  then have "\<not> sz \<le>s 0"
    by (simp add: word_sle_eq)
  moreover have "sum_loop a sz 0 0 = Inr (0 + sum_list (drop (nat (sint (0 :: c_int))) (take (nat (sint sz)) a)))"
    by (rule sum_loop_drop_take) (use pos assms(2) in simp_all)
  ultimately show ?thesis
    by (simp add: sum_array_def)
qed

lemma double_array_map:
  assumes "0 <s sz" and "nat (sint sz) \<le> length a"
  shows "double_array (Some a) sz
    = Inr (Some (map (\<lambda>e. 2 * e) (take (nat (sint sz)) a) @ drop (nat (sint sz)) a))"
proof -
  have pos: "0 < sint sz"
    using assms(1) by (simp add: word_sless_alt)
  then have "\<not> sz \<le>s 0"
    by (simp add: word_sle_eq)
  moreover have "double_loop a sz 0
      = Inr (take (nat (sint (0 :: c_int))) a
          @ map (\<lambda>e. e * 2) (drop (nat (sint (0 :: c_int))) (take (nat (sint sz)) a))
          @ drop (nat (sint sz)) a)"
    by (rule double_loop_map) (use pos assms(2) in simp_all)
  ultimately show ?thesis
    by (simp add: double_array_def mult.commute)
qed

subsection \<open>Doubles\<close>

lemma bitlen_numeral_eval:
  "bitlen (numeral (Num.Bit0 k)) = bitlen (numeral k) + 1"
  "bitlen (numeral (Num.Bit1 k)) = bitlen (numeral k) + 1"
  "bitlen 1 = 1"
  by (subst compute_bitlen; simp)+

lemma isqrt_bits_numeral:
  "isqrt_bits n (numeral k) r =
     isqrt_bits n (pred_numeral k)
       (if (r + 2 ^ pred_numeral k) * (r + 2 ^ pred_numeral k) \<le> n
        then r + 2 ^ pred_numeral k else r)"
  by (simp add: numeral_eq_Suc)

lemmas double_eval =
  bitlen_numeral_eval isqrt_bits_numeral of_whole_def shift_up_def pzero_def zero_def
  round_double_def last_place_def scale_def round_to_even_def finish_def with_sign_def
  dsub_def isqrt_def sqrt_round_def multiply_double_def divide_double_def distance_def
  Let_def

lemma not_below_zero_finish: "not_below_zero (finish False n k)"
  by (simp add: finish_def)

lemma not_below_zero_round: "not_below_zero (round_double False p q e)"
  by (simp add: round_double_def Let_def not_below_zero_finish)

lemma round_double_not_NaN: "round_double s p q e \<noteq> NaN"
  by (simp add: round_double_def finish_def Let_def)

lemma dsub_finite_not_NaN:
  "is_finite a \<Longrightarrow> is_finite b \<Longrightarrow> dsub a b \<noteq> NaN"
  by (cases a; cases b) (simp_all add: dsub_def zero_def Let_def round_double_not_NaN)

lemma not_below_zero_square: "d \<noteq> NaN \<Longrightarrow> not_below_zero (dmul d d)"
  by (cases d) (simp_all add: zero_def not_below_zero_round)

lemma with_sign_nonneg: "0 \<le> with_sign False m d"
  by (simp add: with_sign_def)

lemma not_below_zero_dadd:
  assumes "not_below_zero a" and "not_below_zero b"
  shows "not_below_zero (dadd a b)"
proof (cases a)
  case NaN
  then show ?thesis using assms by simp
next
  case (Infinity s)
  then show ?thesis using assms by (cases b) simp_all
next
  case a: (Finite s m e)
  show ?thesis
  proof (cases b)
    case NaN
    then show ?thesis using assms by simp
  next
    case (Infinity t)
    then show ?thesis using assms a by simp
  next
    case b: (Finite t n f)
    have "0 \<le> with_sign False m (e - min e f) + with_sign False n (f - min e f)"
      using with_sign_nonneg [of m "e - min e f"] with_sign_nonneg [of n "f - min e f"] by linarith
    then show ?thesis
      using assms a b by (simp add: Let_def zero_def not_below_zero_round)
  qed
qed

lemma not_below_zero_dsqrt: "not_below_zero d \<Longrightarrow> not_below_zero (dsqrt d)"
  by (cases d) (simp_all add: zero_def sqrt_round_def Let_def not_below_zero_finish)

lemma distance_not_below_zero:
  assumes "is_finite (x a)" "is_finite (y a)" "is_finite (x b)" "is_finite (y b)"
  shows "not_below_zero (distance (Some a) (Some b))"
proof -
  have "dsub (x b) (x a) \<noteq> NaN" "dsub (y b) (y a) \<noteq> NaN"
    using assms by (simp_all add: dsub_finite_not_NaN)
  then show ?thesis
    by (simp add: distance_def Let_def not_below_zero_dsqrt not_below_zero_dadd
        not_below_zero_square)
qed

lemma dsub_self: "is_finite d \<Longrightarrow> dsub d d = pzero"
  by (cases d) (simp_all add: dsub_def with_sign_def pzero_def Let_def)

lemma distance_self:
  assumes "is_finite (x a)" "is_finite (y a)"
  shows "distance (Some a) (Some a) = pzero"
  using assms by (simp add: distance_def dsub_self pzero_def zero_def with_sign_def Let_def)

lemma dmul_zero: "is_finite a \<Longrightarrow> \<exists>s. dmul a pzero = zero s"
  by (cases a) (simp_all add: pzero_def zero_def)


lemma not_below_zero_cases:
  "not_below_zero d \<Longrightarrow> d = Infinity False \<or> (\<exists>m e. d = Finite False m e)"
  by (cases d) simp_all

lemma euclidean_along_x:
  assumes "dval (x a) = 0" "dval (y a) = 0" "dval (y b) = 0" "0 \<le> dval (x b)"
  shows "euclidean a b = dval (x b)"
  using assms by (simp add: euclidean_def)

subsection \<open>Rounding to nearest\<close>

lemma scale_denominator: "0 < q \<Longrightarrow> 0 < snd (scale p q d)"
  by (simp add: scale_def)

lemma scale_value:
  assumes "0 < q"
  shows "real (fst (scale p q d)) / real (snd (scale p q d)) = rv p q d"
proof (cases "0 \<le> d")
  case True
  then have "(2 :: real) powi d = 2 ^ nat d"
    using power_int_of_nat [of "2 :: real" "nat d"] by simp
  then show ?thesis
    using True by (simp add: scale_def rv_def)
next
  case False
  then have pw: "(2 :: real) powi d = 1 / 2 ^ nat (- d)"
    using power_int_of_nat [of "2 :: real" "nat (- d)"]
      power_int_minus_divide [of "2 :: real" "- d"]
    by simp
  have "real p / (real q * 2 ^ nat (- d)) = real p / real q * (1 / 2 ^ nat (- d))"
    by simp
  then show ?thesis
    using False by (simp only: scale_def rv_def pw if_False fst_conv snd_conv of_nat_mult
        of_nat_power of_nat_numeral)
qed

lemma rv_shift: "rv p q (d + k) = rv p q d * 2 powi k"
  by (simp add: rv_def power_int_add)

lemma rv_pos: "0 < p \<Longrightarrow> 0 < q \<Longrightarrow> 0 < rv p q e"
  by (simp add: rv_def)

lemma round_to_even_near:
  assumes "0 < d"
  shows "\<bar>real (round_to_even (n, d)) - real n / real d\<bar> \<le> 1 / 2"
proof -
  let ?a = "n div d" and ?r = "n mod d"
  have n: "real n = real d * real ?a + real ?r"
    using div_mult_mod_eq [of n d] by (metis mult.commute of_nat_add of_nat_mult)
  have r: "?r < d"
    using assms by simp
  have frac: "real n / real d = real ?a + real ?r / real d"
    using assms by (simp add: n field_simps)
  have cases: "round_to_even (n, d) = ?a \<and> 2 * ?r \<le> d
      \<or> round_to_even (n, d) = ?a + 1 \<and> d \<le> 2 * ?r"
    by (auto simp add: round_to_even_def Let_def)
  then show ?thesis
  proof
    assume c: "round_to_even (n, d) = ?a \<and> 2 * ?r \<le> d"
    then have "2 * real ?r \<le> real d"
      by (metis of_nat_le_iff of_nat_mult of_nat_numeral)
    then have "real ?r / real d \<le> 1 / 2"
      using assms by (simp add: field_simps)
    then show ?thesis
      using c frac by simp
  next
    assume c: "round_to_even (n, d) = ?a + 1 \<and> d \<le> 2 * ?r"
    then have "real d \<le> 2 * real ?r"
      by (metis of_nat_le_iff of_nat_mult of_nat_numeral)
    then have "1 / 2 \<le> real ?r / real d"
      using assms by (simp add: field_simps)
    moreover have "real ?r / real d < 1"
      using r assms by simp
    ultimately show ?thesis
      using c frac by simp
  qed
qed

lemma round_to_even_upper:
  assumes "0 < d" and "real n / real d \<le> real b"
  shows "round_to_even (n, d) \<le> b"
proof -
  have nb: "n \<le> b * d"
  proof -
    have "real n \<le> real b * real d"
      using assms by (simp add: field_simps)
    then show ?thesis
      by (metis of_nat_le_iff of_nat_mult)
  qed
  then have a: "n div d \<le> b"
    using assms(1) by (metis div_le_mono div_mult_self_is_m)
  show ?thesis
  proof (cases "n mod d = 0")
    case True
    then show ?thesis
      using a assms(1) by (simp add: round_to_even_def Let_def)
  next
    case False
    have "n div d < b"
    proof (rule ccontr)
      assume "\<not> n div d < b"
      then have "n div d = b"
        using a by simp
      then have "n = b * d + n mod d"
        using div_mult_mod_eq [of n d] by simp
      then show False
        using nb False by simp
    qed
    then show ?thesis
      by (simp add: round_to_even_def Let_def)
  qed
qed

lemma round_to_even_lower:
  assumes "0 < d" and "real a \<le> real n / real d"
  shows "a \<le> round_to_even (n, d)"
proof -
  have "real a * real d \<le> real n"
    using assms by (simp add: field_simps)
  then have "a * d \<le> n"
    by (metis of_nat_le_iff of_nat_mult)
  then have "a \<le> n div d"
    using assms(1) by (metis div_le_mono div_mult_self_is_m)
  then show ?thesis
    by (simp add: round_to_even_def Let_def)
qed

lemma bitlen_real_bounds:
  assumes "0 < p"
  shows "2 powi (bitlen (int p) - 1) \<le> real p" and "real p < 2 powi (bitlen (int p))"
proof -
  let ?b = "bitlen (int p)"
  have b: "2 ^ nat (?b - 1) \<le> int p \<and> int p < 2 ^ nat ?b"
    using bitlen_bounds [of "int p"] assms by simp
  have pos: "1 \<le> ?b"
    using assms bitlen_eq_zero_iff [of "int p"] bitlen_nonneg [of "int p"] by linarith
  have "(2 :: real) powi (?b - 1) = 2 ^ nat (?b - 1)"
    using pos power_int_of_nat [of "2 :: real" "nat (?b - 1)"] by simp
  moreover have "real_of_int (2 ^ nat (?b - 1)) \<le> real_of_int (int p)"
    using b by (simp only: of_int_le_iff)
  ultimately show "2 powi (?b - 1) \<le> real p"
    by simp
  have "(2 :: real) powi ?b = 2 ^ nat ?b"
    using pos power_int_of_nat [of "2 :: real" "nat ?b"] by simp
  moreover have "real_of_int (int p) < real_of_int (2 ^ nat ?b)"
    using b by (simp only: of_int_less_iff)
  ultimately show "real p < 2 powi ?b"
    by simp
qed

lemma quotient_binade:
  assumes "0 < p" and "0 < q"
  shows "2 powi (bitlen (int p) - bitlen (int q) - 1) < real p / real q"
    and "real p / real q < 2 powi (bitlen (int p) - bitlen (int q) + 1)"
proof -
  let ?bp = "bitlen (int p)" and ?bq = "bitlen (int q)"
  note P = bitlen_real_bounds [OF assms(1)] and Q = bitlen_real_bounds [OF assms(2)]
  have qpos: "0 < real q"
    using assms(2) by simp
  have "2 powi (?bp - ?bq - 1) * real q < 2 powi (?bp - ?bq - 1) * 2 powi ?bq"
    using Q(2) by simp
  also have "\<dots> = 2 powi (?bp - 1)"
    by (simp add: power_int_add [symmetric])
  also have "\<dots> \<le> real p"
    by (rule P(1))
  finally show "2 powi (?bp - ?bq - 1) < real p / real q"
    using qpos by (simp add: field_simps)
  have "real p < 2 powi ?bp"
    by (rule P(2))
  also have "\<dots> = 2 powi (?bp - ?bq + 1) * 2 powi (?bq - 1)"
    by (simp add: power_int_add [symmetric])
  also have "\<dots> \<le> 2 powi (?bp - ?bq + 1) * real q"
    using Q(1) by simp
  finally show "real p / real q < 2 powi (?bp - ?bq + 1)"
    using qpos by (simp add: field_simps)
qed

lemma last_place_bounds:
  assumes "0 < p" and "0 < q"
  shows "- 1074 \<le> last_place p q e"
    and "rv p q e < 2 ^ 53 * 2 powi (last_place p q e)"
    and "- 1074 < last_place p q e \<Longrightarrow> 2 ^ 52 * 2 powi (last_place p q e) \<le> rv p q e"
proof -
  let ?bp = "bitlen (int p)" and ?bq = "bitlen (int q)"
  define e0 where "e0 = ?bp - ?bq + e - 53"
  define w where "w = rv p q (e - e0)"
  define e1 where "e1 = (if 2 ^ 53 \<le> w then e0 + 1 else e0)"
  have test: "(2 ^ 53 * snd (scale p q (e - e0)) \<le> fst (scale p q (e - e0))) = (2 ^ 53 \<le> w)"
  proof -
    let ?n = "fst (scale p q (e - e0))" and ?d = "snd (scale p q (e - e0))"
    have d: "0 < ?d"
      using assms(2) by (rule scale_denominator)
    have "(2 ^ 53 * ?d \<le> ?n) = (real (2 ^ 53 * ?d) \<le> real ?n)"
      by (simp only: of_nat_le_iff)
    also have "\<dots> = (2 ^ 53 \<le> real ?n / real ?d)"
      using d by (simp add: field_simps)
    finally show ?thesis
      using scale_value [OF assms(2), of p "e - e0"] by (simp add: w_def)
  qed
  have k: "last_place p q e = max e1 (- 1074)"
    unfolding last_place_def Let_def e1_def test [symmetric] e0_def by simp
  have w: "2 ^ 52 < w" "w < 2 ^ 54"
  proof -
    define c :: real where "c = 2 powi (53 - (?bp - ?bq))"
    have c: "0 < c"
      by (simp add: c_def)
    have "w = real p / real q * c"
      by (simp add: w_def rv_def e0_def c_def algebra_simps)
    moreover have "2 powi (?bp - ?bq - 1) * c < real p / real q * c"
      using quotient_binade(1) [OF assms] c by (rule mult_strict_right_mono)
    moreover have "real p / real q * c < 2 powi (?bp - ?bq + 1) * c"
      using quotient_binade(2) [OF assms] c by (rule mult_strict_right_mono)
    moreover have "(2 :: real) powi (?bp - ?bq - 1) * c = 2 ^ 52"
      by (simp add: c_def power_int_add [symmetric])
    moreover have "(2 :: real) powi (?bp - ?bq + 1) * c = 2 ^ 54"
      by (simp add: c_def power_int_add [symmetric])
    ultimately show "2 ^ 52 < w" "w < 2 ^ 54"
      by (simp_all only:)
  qed
  define u where "u = rv p q (e - e1)"
  have u: "2 ^ 52 \<le> u" "u < 2 ^ 53"
  proof -
    have "u = (if 2 ^ 53 \<le> w then w / 2 else w)"
      using rv_shift [of p q "e - e0" "- 1"]
      by (simp add: u_def e1_def w_def algebra_simps)
    then show "2 ^ 52 \<le> u" "u < 2 ^ 53"
      using w by (simp_all split: if_splits)
  qed
  have v: "rv p q e = u * 2 powi e1"
    using rv_shift [of p q "e - e1" e1] by (simp add: u_def)
  have pos: "(0 :: real) < 2 powi e1"
    by simp
  show "- 1074 \<le> last_place p q e"
    by (simp add: k)
  have "rv p q e < 2 ^ 53 * 2 powi e1"
    using u(2) pos by (simp add: v)
  also have "\<dots> \<le> 2 ^ 53 * 2 powi (max e1 (- 1074))"
    by (simp add: power_int_increasing)
  finally show "rv p q e < 2 ^ 53 * 2 powi (last_place p q e)"
    by (simp add: k)
  show "2 ^ 52 * 2 powi (last_place p q e) \<le> rv p q e" if "- 1074 < last_place p q e"
  proof -
    have "last_place p q e = e1"
      using that k by simp
    then show ?thesis
      using u(1) pos by (simp add: v)
  qed
qed

lemma finish_value:
  assumes "n \<le> 2 ^ 53" and "k \<le> 970" and "- 1074 \<le> k" and "- 1074 < k \<longrightarrow> 2 ^ 52 \<le> n"
  shows "\<exists>n' k'. finish s n k = Finite s n' k' \<and> is_double (Finite s n' k')
           \<and> real n' * 2 powi k' = real n * 2 powi k"
proof (cases "n = 2 ^ 53")
  case True
  have "(2 :: real) powi (k + 1) = 2 powi k * 2"
    by (simp add: power_int_add)
  then have "real (2 ^ 52) * 2 powi (k + 1) = real (2 ^ 53) * 2 powi k"
    by simp
  then show ?thesis
    using True assms by (simp add: finish_def)
next
  case False
  then have "n < 2 ^ 53"
    using assms(1) by simp
  then show ?thesis
    using False assms by (auto simp add: finish_def)
qed

lemma round_double_core:
  assumes "0 < p" and "0 < q" and "rv p q e < 2 powi 1023"
  shows "\<exists>n k. round_double s p q e = Finite s n k \<and> is_double (Finite s n k)
           \<and> real n * 2 powi k
               = real (round_to_even (scale p q (e - last_place p q e)))
                 * 2 powi (last_place p q e)"
proof -
  define K where "K = last_place p q e"
  define N where "N = fst (scale p q (e - K))"
  define D where "D = snd (scale p q (e - K))"
  define n0 where "n0 = round_to_even (N, D)"
  define y where "y = real N / real D"
  note K = last_place_bounds [OF assms(1,2), of e, folded K_def]
  have D: "0 < D"
    unfolding D_def using assms(2) by (rule scale_denominator)
  have y: "y = rv p q (e - K)"
    unfolding y_def N_def D_def using assms(2) by (rule scale_value)
  have v: "rv p q e = y * 2 powi K"
    using rv_shift [of p q "e - K" K] by (simp add: y)
  have pos: "(0 :: real) < 2 powi K"
    by simp
  have y_upper: "y < 2 ^ 53"
    using K(2) pos by (simp add: v)
  have y_lower: "2 ^ 52 \<le> y" if "- 1074 < K"
    using K(3) [OF that] pos by (simp add: v)
  have n_upper: "n0 \<le> 2 ^ 53"
    unfolding n0_def using D by (rule round_to_even_upper) (use y_upper in \<open>simp add: y_def\<close>)
  have n_lower: "- 1074 < K \<longrightarrow> 2 ^ 52 \<le> n0"
  proof
    assume "- 1074 < K"
    then have "real (2 ^ 52) \<le> real N / real D"
      using y_lower by (simp add: y_def)
    then show "2 ^ 52 \<le> n0"
      unfolding n0_def using D round_to_even_lower by blast
  qed
  have K_upper: "K \<le> 970"
  proof (rule ccontr)
    assume "\<not> K \<le> 970"
    then have big: "971 \<le> K"
      by simp
    then have "2 ^ 52 * 2 powi K \<le> rv p q e"
      using K(3) by simp
    moreover have "(2 :: real) powi 971 \<le> 2 powi K"
      by (rule power_int_increasing) (use big in simp_all)
    moreover have "(2 :: real) ^ 52 * 2 powi 971 = 2 powi 1023"
      using power_int_add [of "2 :: real" 52 971] by simp
    ultimately have "2 powi 1023 \<le> rv p q e"
      by (smt (verit) mult_left_mono zero_le_power)
    then show False
      using assms(3) by simp
  qed
  obtain n' k' where fin: "finish s n0 K = Finite s n' k'" "is_double (Finite s n' k')"
      "real n' * 2 powi k' = real n0 * 2 powi K"
    using finish_value [OF n_upper K_upper K(1) n_lower, of s] by blast
  have "round_double s p q e = Finite s n' k'"
    using fin(1) by (simp add: round_double_def Let_def n0_def N_def D_def K_def)
  moreover have "real n' * 2 powi k'
      = real (round_to_even (scale p q (e - last_place p q e))) * 2 powi (last_place p q e)"
    using fin(3) by (simp add: n0_def N_def D_def K_def)
  ultimately show ?thesis
    using fin(2) by blast
qed

lemma round_double_finite:
  assumes "0 < p" and "0 < q" and "rv p q e < 2 powi 1023"
  shows "\<exists>n k. round_double s p q e = Finite s n k \<and> is_double (Finite s n k)
           \<and> \<bar>real n * 2 powi k - rv p q e\<bar> \<le> 2 powi (last_place p q e - 1)"
proof -
  define K where "K = last_place p q e"
  define N where "N = fst (scale p q (e - K))"
  define D where "D = snd (scale p q (e - K))"
  define n0 where "n0 = round_to_even (N, D)"
  define y where "y = real N / real D"
  have D: "0 < D"
    unfolding D_def using assms(2) by (rule scale_denominator)
  have y: "y = rv p q (e - K)"
    unfolding y_def N_def D_def using assms(2) by (rule scale_value)
  have v: "rv p q e = y * 2 powi K"
    using rv_shift [of p q "e - K" K] by (simp add: y)
  have pos: "(0 :: real) < 2 powi K"
    by simp
  obtain n' k' where fin: "round_double s p q e = Finite s n' k'" "is_double (Finite s n' k')"
      "real n' * 2 powi k' = real n0 * 2 powi K"
    using round_double_core [OF assms, of s] by (auto simp add: n0_def N_def D_def K_def)
  have near: "\<bar>real n0 - y\<bar> \<le> 1 / 2"
    unfolding n0_def y_def using D by (rule round_to_even_near)
  have "\<bar>real n' * 2 powi k' - rv p q e\<bar> = \<bar>real n0 - y\<bar> * 2 powi K"
  proof -
    have "real n' * 2 powi k' - rv p q e = (real n0 - y) * 2 powi K"
      by (simp add: fin(3) v left_diff_distrib)
    then show ?thesis
      using pos by (simp add: abs_mult)
  qed
  also have "\<dots> \<le> 1 / 2 * 2 powi K"
    using near pos by (simp add: mult_right_mono)
  also have "\<dots> = 2 powi (K - 1)"
    by (simp add: power_int_diff)
  finally have "\<bar>real n' * 2 powi k' - rv p q e\<bar> \<le> 2 powi (K - 1)" .
  then show ?thesis
    using fin(1,2) K_def by blast
qed

lemma round_double_exact:
  assumes "0 < p" and "rv p 1 e < 2 powi 1023" and "last_place p 1 e \<le> e"
  shows "\<exists>n k. round_double s p 1 e = Finite s n k \<and> is_double (Finite s n k)
           \<and> real n * 2 powi k = rv p 1 e"
proof -
  define K where "K = last_place p 1 e"
  have sc: "scale p 1 (e - K) = (p * 2 ^ nat (e - K), 1)"
    using assms(3) by (simp add: scale_def K_def)
  have "round_to_even (p * 2 ^ nat (e - K), 1) = p * 2 ^ nat (e - K)"
    by (simp add: round_to_even_def)
  then have "round_to_even (scale p 1 (e - K)) = p * 2 ^ nat (e - K)"
    by (simp only: sc)
  moreover have "real (p * 2 ^ nat (e - K)) = rv p 1 (e - K)"
  proof -
    have "(2 :: real) powi (e - K) = 2 ^ nat (e - K)"
      using assms(3) power_int_of_nat [of "2 :: real" "nat (e - K)"] by (simp add: K_def)
    then show ?thesis
      by (simp add: rv_def)
  qed
  moreover have "rv p 1 (e - K) * 2 powi K = rv p 1 e"
    using rv_shift [of p 1 "e - K" K] by simp
  ultimately have "real (round_to_even (scale p 1 (e - K))) * 2 powi K = rv p 1 e"
    by simp
  then show ?thesis
    using round_double_core [of p 1 e s] assms(1,2) by (simp add: K_def)
qed

lemma last_place_low:
  assumes "0 < p" and "0 < q" and "rv p q e < 2 powi (- 1022)"
  shows "last_place p q e = - 1074"
proof (rule ccontr)
  assume "last_place p q e \<noteq> - 1074"
  then have big: "- 1073 \<le> last_place p q e"
    using last_place_bounds(1) [OF assms(1,2), of e] by simp
  then have "2 ^ 52 * 2 powi (last_place p q e) \<le> rv p q e"
    using last_place_bounds(3) [OF assms(1,2), of e] by simp
  moreover have "(2 :: real) powi (- 1073) \<le> 2 powi (last_place p q e)"
    by (rule power_int_increasing) (use big in simp_all)
  moreover have "(2 :: real) ^ 52 * 2 powi (- 1073) = 2 powi (- 1021)"
    using power_int_add [of "2 :: real" 52 "- 1073"] by simp
  moreover have "(2 :: real) powi (- 1022) \<le> 2 powi (- 1021)"
    by (rule power_int_increasing) simp_all
  ultimately have "2 powi (- 1022) \<le> rv p q e"
    by (smt (verit) mult_left_mono zero_le_power)
  then show False
    using assms(3) by simp
qed

lemma round_double_relative:
  assumes "0 < p" and "0 < q" and "rv p q e < 2 powi 1023" and "2 powi (- 1022) \<le> rv p q e"
  shows "\<exists>n k. round_double s p q e = Finite s n k \<and> is_double (Finite s n k)
           \<and> \<bar>real n * 2 powi k - rv p q e\<bar> \<le> rv p q e / 2 ^ 53"
proof -
  define K where "K = last_place p q e"
  note K = last_place_bounds [OF assms(1,2), of e, folded K_def]
  have "2 ^ 52 * 2 powi K \<le> rv p q e"
  proof (cases "- 1074 < K")
    case True
    then show ?thesis
      by (rule K(3))
  next
    case False
    then have "K = - 1074"
      using K(1) by simp
    moreover have "(2 :: real) ^ 52 * 2 powi (- 1074) = 2 powi (- 1022)"
      using power_int_add [of "2 :: real" 52 "- 1074"] by simp
    ultimately show ?thesis
      using assms(4) by simp
  qed
  moreover have "(2 :: real) powi (K - 1) = 2 ^ 52 * 2 powi K / 2 ^ 53"
    by (simp add: power_int_diff)
  ultimately have "2 powi (K - 1) \<le> rv p q e / 2 ^ 53"
    by (simp add: divide_right_mono)
  then show ?thesis
    using round_double_finite [OF assms(1-3), of s] by (fold K_def) fastforce
qed

lemma round_double_sum:
  assumes "0 < p" and "- 1074 \<le> e" and "rv p 1 e < 2 powi 1023"
  shows "\<exists>n k. round_double s p 1 e = Finite s n k \<and> is_double (Finite s n k)
           \<and> \<bar>real n * 2 powi k - rv p 1 e\<bar> \<le> rv p 1 e / 2 ^ 53"
proof (cases "2 powi (- 1022) \<le> rv p 1 e")
  case True
  then show ?thesis
    using round_double_relative [of p 1 e s] assms by simp
next
  case False
  then have "last_place p 1 e = - 1074"
    using last_place_low [of p 1 e] assms(1) by simp
  then have "last_place p 1 e \<le> e"
    using assms(2) by simp
  then obtain n k where "round_double s p 1 e = Finite s n k" "is_double (Finite s n k)"
      "real n * 2 powi k = rv p 1 e"
    using round_double_exact [of p e s] assms(1,3) by blast
  moreover have "0 \<le> rv p 1 e / 2 ^ 53"
    using rv_pos [of p 1 e] assms(1) by simp
  ultimately show ?thesis
    by auto
qed

subsection \<open>The operators against the real numbers\<close>

lemma dval_Finite: "dval (Finite s m e) = (if s then - 1 else 1) * real m * 2 powi e"
  by (simp add: dval_def)

lemma dval_zero: "dval (zero s) = 0"
  by (simp add: zero_def dval_def)

lemma is_double_zero: "is_double (zero s)" "is_finite (zero s)"
  by (simp_all add: zero_def)

lemma with_sign_value:
  assumes "k \<le> e"
  shows "real_of_int (with_sign s m (e - k)) * 2 powi k = dval (Finite s m e)"
proof -
  have "(2 :: real) ^ nat (e - k) = 2 powi (e - k)"
    using assms power_int_of_nat [of "2 :: real" "nat (e - k)"] by simp
  moreover have "(2 :: real) powi (e - k) * 2 powi k = 2 powi e"
    by (simp add: power_int_add [symmetric])
  ultimately have "(2 :: real) ^ nat (e - k) * 2 powi k = 2 powi e"
    by simp
  then have "real m * 2 ^ nat (e - k) * 2 powi k = real m * 2 powi e"
    by (simp add: mult.assoc)
  then show ?thesis
    by (simp add: with_sign_def dval_Finite)
qed

lemma round_double_dval:
  assumes "round_double s p q e = Finite s n k"
  shows "dval (round_double s p q e) = (if s then - 1 else 1) * (real n * 2 powi k)"
  by (simp add: assms dval_Finite)

lemma dadd_accurate:
  assumes "is_double (Finite s m e)" and "is_double (Finite t n f)"
    and "\<bar>dval (Finite s m e) + dval (Finite t n f)\<bar> < 2 powi 1023"
  shows "is_finite (dadd (Finite s m e) (Finite t n f))
    \<and> is_double (dadd (Finite s m e) (Finite t n f))
    \<and> \<bar>dval (dadd (Finite s m e) (Finite t n f)) - (dval (Finite s m e) + dval (Finite t n f))\<bar>
        \<le> \<bar>dval (Finite s m e) + dval (Finite t n f)\<bar> / 2 ^ 53"
proof -
  define k where "k = min e f"
  define c where "c = with_sign s m (e - k) + with_sign t n (f - k)"
  let ?v = "dval (Finite s m e) + dval (Finite t n f)"
  have k: "- 1074 \<le> k"
    using assms(1,2) by (simp add: k_def)
  have sum: "real_of_int c * 2 powi k = ?v"
    using with_sign_value [of k e s m] with_sign_value [of k f t n]
    by (simp add: c_def k_def distrib_right)
  show ?thesis
  proof (cases "c = 0")
    case True
    then have "dadd (Finite s m e) (Finite t n f) = zero (s \<and> t)"
      by (simp add: c_def k_def Let_def)
    moreover have "?v = 0"
      using sum True by simp
    ultimately show ?thesis
      by (simp add: dval_zero is_double_zero)
  next
    case False
    define p where "p = nat \<bar>c\<bar>"
    have p: "0 < p"
      using False by (simp add: p_def)
    have pos: "(0 :: real) < 2 powi k"
      by simp
    have rv: "rv p 1 k = \<bar>?v\<bar>"
    proof -
      have "real p = \<bar>real_of_int c\<bar>"
        by (simp add: p_def)
      then have "rv p 1 k = \<bar>real_of_int c\<bar> * \<bar>2 powi k\<bar>"
        using pos by (simp add: rv_def)
      then show ?thesis
        by (simp only: abs_mult [symmetric] sum)
    qed
    have res: "dadd (Finite s m e) (Finite t n f) = round_double (c < 0) p 1 k"
      using False by (simp add: c_def k_def p_def Let_def)
    obtain n' k' where r: "round_double (c < 0) p 1 k = Finite (c < 0) n' k'"
        "is_double (Finite (c < 0) n' k')"
        "\<bar>real n' * 2 powi k' - rv p 1 k\<bar> \<le> rv p 1 k / 2 ^ 53"
      using round_double_sum [OF p k, of "c < 0"] assms(3) rv by auto
    have sign: "?v = (if c < 0 then - 1 else 1) * \<bar>?v\<bar>"
    proof -
      have "(c < 0) = (real_of_int c * 2 powi k < 0)"
        using mult_less_cancel_right_pos [OF pos, of "real_of_int c" 0] by simp
      then show ?thesis
        by (simp add: sum)
    qed
    have "dval (Finite (c < 0) n' k') - ?v
        = (if c < 0 then - 1 else 1) * (real n' * 2 powi k' - \<bar>?v\<bar>)"
      using sign by (simp add: dval_Finite algebra_simps)
    then have "\<bar>dval (Finite (c < 0) n' k') - ?v\<bar> = \<bar>real n' * 2 powi k' - \<bar>?v\<bar>\<bar>"
      by (simp add: abs_mult)
    then show ?thesis
      unfolding res r(1) using r(2,3) rv by simp
  qed
qed

lemma dneg_props:
  "dval (dneg a) = - dval a" "is_double (dneg a) = is_double a" "is_finite (dneg a) = is_finite a"
  by (cases a; simp add: dval_def)+

lemma dsub_accurate:
  assumes "is_double a" and "is_double b" and "is_finite a" and "is_finite b"
    and "\<bar>dval a - dval b\<bar> < 2 powi 1023"
  shows "is_finite (dsub a b) \<and> is_double (dsub a b)
    \<and> \<bar>dval (dsub a b) - (dval a - dval b)\<bar> \<le> \<bar>dval a - dval b\<bar> / 2 ^ 53"
proof -
  obtain s m e where a: "a = Finite s m e"
    using assms(3) by (cases a) simp_all
  obtain t n f where b: "dneg b = Finite t n f"
    using assms(4) by (cases b) simp_all
  have "is_double (Finite t n f)" and "dval (Finite t n f) = - dval b"
    using assms(2) dneg_props [of b] by (simp_all add: b)
  then show ?thesis
    using dadd_accurate [of s m e t n f] assms(1,5) by (simp add: dsub_def a b)
qed

lemma dadd_finite_accurate:
  assumes "is_double a" and "is_double b" and "is_finite a" and "is_finite b"
    and "\<bar>dval a + dval b\<bar> < 2 powi 1023"
  shows "is_finite (dadd a b) \<and> is_double (dadd a b)
    \<and> \<bar>dval (dadd a b) - (dval a + dval b)\<bar> \<le> \<bar>dval a + dval b\<bar> / 2 ^ 53"
proof -
  obtain s m e where a: "a = Finite s m e"
    using assms(3) by (cases a) simp_all
  obtain t n f where b: "b = Finite t n f"
    using assms(4) by (cases b) simp_all
  show ?thesis
    using dadd_accurate [of s m e t n f] assms(1,2,5) by (simp add: a b)
qed

lemma dmul_accurate:
  assumes "is_finite a" and "is_finite b"
    and "dval a * dval b = 0 \<or> 2 powi (- 1022) \<le> \<bar>dval a * dval b\<bar>"
    and "\<bar>dval a * dval b\<bar> < 2 powi 1023"
  shows "is_finite (dmul a b) \<and> is_double (dmul a b)
    \<and> \<bar>dval (dmul a b) - dval a * dval b\<bar> \<le> \<bar>dval a * dval b\<bar> / 2 ^ 53"
proof -
  obtain s m e where a: "a = Finite s m e"
    using assms(1) by (cases a) simp_all
  obtain t n f where b: "b = Finite t n f"
    using assms(2) by (cases b) simp_all
  let ?v = "dval a * dval b"
  show ?thesis
  proof (cases "m = 0 \<or> n = 0")
    case True
    then have "dmul a b = zero (s \<noteq> t)" and "?v = 0"
      by (auto simp add: a b dval_Finite)
    then show ?thesis
      by (simp add: dval_zero is_double_zero)
  next
    case False
    define p where "p = m * n"
    have p: "0 < p"
      using False by (simp add: p_def)
    have abs_v: "\<bar>?v\<bar> = rv p 1 (e + f)"
      by (simp add: a b dval_Finite rv_def p_def abs_mult power_int_add)
    have nz: "?v \<noteq> 0"
      using False by (simp add: a b dval_Finite)
    have res: "dmul a b = round_double (s \<noteq> t) p 1 (e + f)"
      using False by (simp add: a b p_def)
    obtain n' k' where r: "round_double (s \<noteq> t) p 1 (e + f) = Finite (s \<noteq> t) n' k'"
        "is_double (Finite (s \<noteq> t) n' k')"
        "\<bar>real n' * 2 powi k' - rv p 1 (e + f)\<bar> \<le> rv p 1 (e + f) / 2 ^ 53"
      using round_double_relative [OF p, of 1 "e + f" "s \<noteq> t"] assms(3,4) nz abs_v by auto
    have sign: "?v = (if s \<noteq> t then - 1 else 1) * \<bar>?v\<bar>"
      by (simp add: a b dval_Finite abs_mult)
    have "dval (Finite (s \<noteq> t) n' k') - ?v
        = (if s \<noteq> t then - 1 else 1) * (real n' * 2 powi k' - \<bar>?v\<bar>)"
      using sign by (simp add: dval_Finite algebra_simps)
    then have "\<bar>dval (Finite (s \<noteq> t) n' k') - ?v\<bar> = \<bar>real n' * 2 powi k' - \<bar>?v\<bar>\<bar>"
      by (simp add: abs_mult)
    then show ?thesis
      unfolding res r(1) using r(2,3) abs_v by simp
  qed
qed

subsection \<open>The square root\<close>

lemma isqrt_bits_invariant:
  "r * r \<le> n \<Longrightarrow> n < (r + 2 ^ k) * (r + 2 ^ k) \<Longrightarrow>
   isqrt_bits n k r * isqrt_bits n k r \<le> n
   \<and> n < (isqrt_bits n k r + 1) * (isqrt_bits n k r + 1)"
proof (induction k arbitrary: r)
  case 0
  then show ?case by simp
next
  case (Suc k)
  show ?case
  proof (cases "(r + 2 ^ k) * (r + 2 ^ k) \<le> n")
    case True
    have "r + 2 ^ k + 2 ^ k = r + 2 ^ Suc k"
      by simp
    then have "n < (r + 2 ^ k + 2 ^ k) * (r + 2 ^ k + 2 ^ k)"
      using Suc.prems(2) by (simp only:)
    then show ?thesis
      using True Suc.IH [of "r + 2 ^ k"] by simp
  next
    case False
    then show ?thesis
      using Suc.prems(1) Suc.IH [of r] by simp
  qed
qed

lemma isqrt_correct: "isqrt n * isqrt n \<le> n \<and> n < (isqrt n + 1) * (isqrt n + 1)"
proof -
  let ?k = "nat (bitlen (int n))"
  have "n < 2 ^ ?k"
  proof (cases "n = 0")
    case True
    then show ?thesis by simp
  next
    case False
    then have "int n < 2 ^ ?k"
      using bitlen_bounds [of "int n"] by simp
    then show ?thesis
      by (metis of_nat_less_iff of_nat_numeral of_nat_power)
  qed
  moreover have "(2 :: nat) ^ ?k \<le> 2 ^ ?k * 2 ^ ?k"
    by simp
  ultimately have "n < 2 ^ ?k * 2 ^ ?k"
    by (rule less_le_trans)
  then have "n < (0 + 2 ^ ?k) * (0 + 2 ^ ?k)"
    by simp
  then show ?thesis
    unfolding isqrt_def using isqrt_bits_invariant [of 0 n ?k] by simp
qed

lemma isqrt_real:
  "real (isqrt n) \<le> sqrt (real n)" "sqrt (real n) < real (isqrt n) + 1"
proof -
  let ?r = "isqrt n"
  have "real (?r * ?r) \<le> real n" and "real n < real ((?r + 1) * (?r + 1))"
    using isqrt_correct [of n] by (simp_all only: of_nat_le_iff of_nat_less_iff)
  then have lo: "(real ?r)\<^sup>2 \<le> real n" and hi: "real n < (real ?r + 1)\<^sup>2"
    by (simp_all add: power2_eq_square algebra_simps)
  show "real ?r \<le> sqrt (real n)"
    using lo by (simp add: real_le_rsqrt)
  show "sqrt (real n) < real ?r + 1"
    using hi by (simp add: real_less_lsqrt)
qed

lemma sqrt_round_accurate:
  assumes "is_double (Finite False m e)" and "0 < m"
  shows "\<exists>n k. sqrt_round m e = Finite False n k \<and> is_double (Finite False n k)
     \<and> \<bar>real n * 2 powi k - sqrt (real m * 2 powi e)\<bar> \<le> sqrt (real m * 2 powi e) / 2 ^ 53"
proof -
  define b where "b = bitlen (int m)"
  define f where "f = (b + e - 105) div 2"
  define d where "d = e - 2 * f"
  define c where "c = m * 2 ^ nat d"
  define n where "n = isqrt c"
  define n' where "n' = (if n < c - n * n then n + 1 else n)"
  have m: "m < 2 ^ 53" "- 1074 \<le> e" "e \<le> 971"
    using assms(1) by simp_all
  have b: "1 \<le> b" "b \<le> 53"
  proof -
    show "1 \<le> b"
      using assms(2) bitlen_eq_zero_iff [of "int m"] bitlen_nonneg [of "int m"]
      by (simp add: b_def)
    have "int m < 2 ^ nat 53"
      using m(1) by (metis nat_numeral of_nat_less_iff of_nat_numeral of_nat_power)
    then show "b \<le> 53"
      unfolding b_def by (subst bitlen_le_iff_power) simp
  qed
  have f2: "2 * f \<le> b + e - 105" "b + e - 105 \<le> 2 * f + 1"
    by (simp_all add: f_def)
  have d: "52 \<le> d"
    using f2 b by (simp add: d_def)
  have bd: "105 \<le> b + d" "b + d \<le> 106"
    using f2 by (simp_all add: d_def)
  have f: "- 1074 \<le> f" "f \<le> 970"
    using f2 b m by linarith+
  have pd: "(2 :: real) ^ nat d = 2 powi d"
    using d power_int_of_nat [of "2 :: real" "nat d"] by simp
  have cr: "real c = real m * 2 powi d"
    by (simp add: c_def pd)
  have mb: "2 powi (b - 1) \<le> real m" "real m < 2 powi b"
    using bitlen_real_bounds [OF assms(2)] by (simp_all add: b_def)
  have pos: "(0 :: real) < 2 powi d"
    by simp
  have c_lo: "2 ^ 104 \<le> real c"
  proof -
    have "(2 :: real) powi 104 \<le> 2 powi (b - 1 + d)"
      by (rule power_int_increasing) (use bd in simp_all)
    also have "\<dots> = 2 powi (b - 1) * 2 powi d"
      by (simp add: power_int_add)
    also have "\<dots> \<le> real m * 2 powi d"
      using mb(1) pos by (simp add: mult_right_mono)
    finally show ?thesis
      by (simp add: cr)
  qed
  have c_hi: "real c < 2 ^ 106"
  proof -
    have "real m * 2 powi d < 2 powi b * 2 powi d"
      using mb(2) pos by (simp add: mult_strict_right_mono)
    also have "\<dots> = 2 powi (b + d)"
      by (simp add: power_int_add)
    also have "\<dots> \<le> 2 powi 106"
      by (rule power_int_increasing) (use bd in simp_all)
    finally show ?thesis
      by (simp add: cr)
  qed
  have v: "real m * 2 powi e = real c * (2 powi f)\<^sup>2"
  proof -
    have "(2 :: real) powi (2 * f) = 2 powi f * 2 powi f"
      using power_int_add [of "2 :: real" f f] by simp
    moreover have "(2 :: real) powi e = 2 powi d * 2 powi (2 * f)"
      using power_int_add [of "2 :: real" d "2 * f"] by (simp add: d_def)
    ultimately have "(2 :: real) powi e = 2 powi d * (2 powi f * 2 powi f)"
      by simp
    then show ?thesis
      by (simp add: cr power2_eq_square)
  qed
  have sq: "sqrt (real m * 2 powi e) = sqrt (real c) * 2 powi f"
    by (simp add: v real_sqrt_mult)
  note root = isqrt_real [of c, folded n_def]
  have s_lo: "2 ^ 52 \<le> sqrt (real c)"
  proof (rule real_le_rsqrt)
    have "((2 :: real) ^ 52)\<^sup>2 = 2 ^ 104"
      by simp
    then show "(2 ^ 52)\<^sup>2 \<le> real c"
      using c_lo by simp
  qed
  have s_hi: "sqrt (real c) < 2 ^ 53"
  proof (rule real_less_lsqrt)
    show "(0 :: real) \<le> 2 ^ 53"
      by simp
    have "((2 :: real) ^ 53)\<^sup>2 = 2 ^ 106"
      by simp
    then show "real c < (2 ^ 53)\<^sup>2"
      using c_hi by simp
  qed
  have n_hi: "n < 2 ^ 53"
  proof -
    have "real n < real (2 ^ 53)"
      using root(1) s_hi by simp
    then show ?thesis
      by (simp only: of_nat_less_iff)
  qed
  have n_lo: "2 ^ 52 \<le> n"
  proof -
    have "real (2 ^ 52) < real (n + 1)"
      using root(2) s_lo by simp
    then have "2 ^ 52 < n + 1"
      by (simp only: of_nat_less_iff)
    then show ?thesis
      by simp
  qed
  have nn: "n * n \<le> c"
    using isqrt_correct [of c] by (simp add: n_def)
  have near: "\<bar>real n' - sqrt (real c)\<bar> \<le> 1 / 2"
  proof (cases "n < c - n * n")
    case True
    then have "n * n + n + 1 \<le> c"
      using nn by simp
    then have "real (n * n + n + 1) \<le> real c"
      by (simp only: of_nat_le_iff)
    then have "(real n + 1 / 2)\<^sup>2 < real c"
      by (simp add: power2_eq_square algebra_simps)
    then have "real n + 1 / 2 < sqrt (real c)"
      by (rule real_less_rsqrt)
    then show ?thesis
      using root(2) True by (simp add: n'_def)
  next
    case False
    then have "c \<le> n * n + n"
      by simp
    then have "real c \<le> real (n * n + n)"
      by (simp only: of_nat_le_iff)
    then have "real c < (real n + 1 / 2)\<^sup>2"
      by (simp add: power2_eq_square algebra_simps)
    then have "sqrt (real c) < real n + 1 / 2"
      by (simp add: real_less_lsqrt)
    then show ?thesis
      using root(1) False by (simp add: n'_def)
  qed
  have n': "n' \<le> 2 ^ 53" "- 1074 < f \<longrightarrow> 2 ^ 52 \<le> n'"
    using n_hi n_lo by (simp_all add: n'_def)
  obtain n'' k'' where fin: "finish False n' f = Finite False n'' k''"
      "is_double (Finite False n'' k'')" "real n'' * 2 powi k'' = real n' * 2 powi f"
    using finish_value [OF n'(1) f(2) f(1) n'(2), of False] by blast
  have "sqrt_round m e = finish False n' f"
    unfolding sqrt_round_def n'_def n_def c_def d_def f_def b_def Let_def by (rule refl)
  then have res: "sqrt_round m e = Finite False n'' k''"
    using fin(1) by (simp only:)
  have pf: "(0 :: real) < 2 powi f"
    by simp
  have "\<bar>real n'' * 2 powi k'' - sqrt (real m * 2 powi e)\<bar>
      = \<bar>real n' - sqrt (real c)\<bar> * 2 powi f"
  proof -
    have "real n'' * 2 powi k'' - sqrt (real m * 2 powi e) = (real n' - sqrt (real c)) * 2 powi f"
      by (simp add: fin(3) sq left_diff_distrib)
    then show ?thesis
      using pf by (simp add: abs_mult)
  qed
  also have "\<dots> \<le> 1 / 2 * 2 powi f"
    using near pf by (simp add: mult_right_mono)
  also have "\<dots> = 2 ^ 52 * 2 powi f / 2 ^ 53"
    by simp
  also have "\<dots> \<le> sqrt (real c) * 2 powi f / 2 ^ 53"
    using s_lo pf by (simp add: divide_right_mono mult_right_mono)
  finally have "\<bar>real n'' * 2 powi k'' - sqrt (real m * 2 powi e)\<bar>
      \<le> sqrt (real m * 2 powi e) / 2 ^ 53"
    by (simp add: sq)
  then show ?thesis
    using res fin(2) by blast
qed

lemma dsqrt_accurate:
  assumes "is_double a" and "is_finite a" and "0 \<le> dval a"
  shows "is_finite (dsqrt a) \<and> is_double (dsqrt a)
    \<and> \<bar>dval (dsqrt a) - sqrt (dval a)\<bar> \<le> sqrt (dval a) / 2 ^ 53"
proof -
  obtain s m e where a: "a = Finite s m e"
    using assms(2) by (cases a) simp_all
  show ?thesis
  proof (cases "m = 0")
    case True
    then show ?thesis
      by (simp add: a dval_Finite dval_zero is_double_zero)
  next
    case False
    have "\<not> s"
    proof
      assume s
      then have "dval a < 0"
        using False by (simp add: a dval_Finite)
      then show False
        using assms(3) by simp
    qed
    then have s: "s = False"
      by simp
    obtain n k where r: "sqrt_round m e = Finite False n k" "is_double (Finite False n k)"
        "\<bar>real n * 2 powi k - sqrt (real m * 2 powi e)\<bar> \<le> sqrt (real m * 2 powi e) / 2 ^ 53"
      using sqrt_round_accurate [of m e] assms(1) False by (auto simp add: a s)
    have "dsqrt a = Finite False n k"
      using False r(1) by (simp add: a s)
    then show ?thesis
      using r(2,3) by (simp add: a s dval_Finite)
  qed
qed

subsection \<open>Accumulated rounding errors\<close>

lemma unit_roundoff_bounds: "0 < unit_roundoff" "unit_roundoff < 1 / 4"
  by (simp_all add: unit_roundoff_def)

lemma rel_close_rounded:
  assumes "0 \<le> w" and "\<bar>v - w\<bar> \<le> w / 2 ^ 53"
  shows "rel_close 1 v w"
proof -
  have "\<bar>v - w\<bar> \<le> w * unit_roundoff"
    using assms(2) by (simp add: unit_roundoff_def)
  then show ?thesis
    by (simp add: rel_close_def algebra_simps abs_le_iff)
qed

lemma rel_close_nonneg:
  assumes "0 \<le> w" and "rel_close k v w"
  shows "0 \<le> v"
proof -
  have "0 \<le> (1 - unit_roundoff) ^ k"
    using unit_roundoff_bounds by simp
  then have "0 \<le> w * (1 - unit_roundoff) ^ k"
    using assms(1) by simp
  then show ?thesis
    using assms(2) by (simp add: rel_close_def)
qed

lemma rel_close_trans:
  assumes "rel_close j u v" and "rel_close k v w"
  shows "rel_close (j + k) u w"
proof -
  have lo: "0 \<le> (1 - unit_roundoff) ^ j" and hi: "0 \<le> (1 + unit_roundoff) ^ j"
    using unit_roundoff_bounds by simp_all
  have "w * (1 - unit_roundoff) ^ k * (1 - unit_roundoff) ^ j \<le> v * (1 - unit_roundoff) ^ j"
    using assms(2) lo by (simp add: rel_close_def mult_right_mono)
  moreover have "v * (1 + unit_roundoff) ^ j \<le> w * (1 + unit_roundoff) ^ k * (1 + unit_roundoff) ^ j"
    using assms(2) hi by (simp add: rel_close_def mult_right_mono)
  moreover have "v * (1 - unit_roundoff) ^ j \<le> u" and "u \<le> v * (1 + unit_roundoff) ^ j"
    using assms(1) by (simp_all add: rel_close_def)
  ultimately have "w * (1 - unit_roundoff) ^ k * (1 - unit_roundoff) ^ j \<le> u"
    and "u \<le> w * (1 + unit_roundoff) ^ k * (1 + unit_roundoff) ^ j"
    by linarith+
  then show ?thesis
    by (simp add: rel_close_def power_add mult.assoc mult.commute mult.left_commute)
qed

lemma rel_close_square:
  assumes "0 \<le> w" and "rel_close k v w"
  shows "rel_close (2 * k) (v * v) (w * w)"
proof -
  define l where "l = (1 - unit_roundoff) ^ k"
  define h where "h = (1 + unit_roundoff) ^ k"
  have l: "0 \<le> l" and h: "0 \<le> h"
    using unit_roundoff_bounds by (simp_all add: l_def h_def)
  have v: "0 \<le> v"
    using assms by (rule rel_close_nonneg)
  have b: "w * l \<le> v" "v \<le> w * h"
    using assms(2) by (simp_all add: rel_close_def l_def h_def)
  have wl: "0 \<le> w * l"
    using assms(1) l by simp
  have "(w * l) * (w * l) \<le> v * v"
    using b(1) b(1) wl wl by (rule mult_mono')
  moreover have "v * v \<le> (w * h) * (w * h)"
    using b(2) b(2) v v by (rule mult_mono')
  moreover have "(1 - unit_roundoff) ^ (2 * k) = l * l"
    and "(1 + unit_roundoff) ^ (2 * k) = h * h"
    by (simp_all add: power_add mult_2 l_def h_def)
  moreover have "(w * l) * (w * l) = w * w * (l * l)" and "(w * h) * (w * h) = w * w * (h * h)"
    by simp_all
  ultimately show ?thesis
    by (simp only: rel_close_def)
qed

lemma rel_close_add:
  assumes "rel_close k v1 w1" and "rel_close k v2 w2"
  shows "rel_close k (v1 + v2) (w1 + w2)"
  using assms by (simp add: rel_close_def distrib_right)

lemma rel_close_sqrt:
  assumes "0 \<le> w" and "rel_close (2 * k) v w"
  shows "rel_close k (sqrt v) (sqrt w)"
proof -
  let ?l = "(1 - unit_roundoff) ^ k" and ?h = "(1 + unit_roundoff) ^ k"
  have l: "0 \<le> ?l" and h: "0 \<le> ?h"
    using unit_roundoff_bounds by simp_all
  have pl: "(1 - unit_roundoff) ^ (2 * k) = ?l\<^sup>2"
    and ph: "(1 + unit_roundoff) ^ (2 * k) = ?h\<^sup>2"
    by (simp_all add: power_even_eq)
  have "sqrt (w * ?l\<^sup>2) \<le> sqrt v" and "sqrt v \<le> sqrt (w * ?h\<^sup>2)"
    using assms(2) by (simp_all add: rel_close_def pl ph)
  moreover have "sqrt (w * ?l\<^sup>2) = sqrt w * ?l" and "sqrt (w * ?h\<^sup>2) = sqrt w * ?h"
    using l h by (simp_all add: real_sqrt_mult)
  ultimately show ?thesis
    by (simp add: rel_close_def)
qed

lemma rel_close_three:
  assumes "0 \<le> w" and "rel_close 3 v w"
  shows "\<bar>v - w\<bar> \<le> w / 2 ^ 51"
proof -
  define u where "u = unit_roundoff"
  have u: "0 < u" "u < 1 / 4"
    unfolding u_def by (rule unit_roundoff_bounds)+
  have "u * (3 + u) \<le> 1 / 4 * 4"
    by (rule mult_mono) (use u in simp_all)
  then have "3 + u * (3 + u) \<le> 4"
    by simp
  then have "u * (3 + u * (3 + u)) \<le> u * 4"
    using u(1) by (simp only: mult_left_mono less_imp_le)
  moreover have "(1 + u) ^ 3 = 1 + u * (3 + u * (3 + u))"
    by (simp add: power3_eq_cube algebra_simps)
  ultimately have hi: "(1 + u) ^ 3 \<le> 1 + 4 * u"
    by simp
  have "(1 - u) ^ 3 = 1 - 3 * u + u * u * (3 - u)"
    by (simp add: power3_eq_cube algebra_simps)
  moreover have "0 \<le> u * u * (3 - u)"
    using u by simp
  ultimately have lo: "1 - 4 * u \<le> (1 - u) ^ 3"
    using u by linarith
  have "w * (1 - 4 * u) \<le> w * (1 - u) ^ 3" and "w * (1 + u) ^ 3 \<le> w * (1 + 4 * u)"
    using assms(1) lo hi by (simp_all only: mult_left_mono)
  moreover have "w * (1 - u) ^ 3 \<le> v" and "v \<le> w * (1 + u) ^ 3"
    using assms(2) by (simp_all add: rel_close_def u_def)
  ultimately have "w * (1 - 4 * u) \<le> v" and "v \<le> w * (1 + 4 * u)"
    by linarith+
  moreover have "w * (4 * u) = w / 2 ^ 51"
    by (simp add: u_def unit_roundoff_def)
  ultimately have "w - w / 2 ^ 51 \<le> v" and "v \<le> w + w / 2 ^ 51"
    by (simp_all only: right_diff_distrib distrib_left mult_1_right)
  then show ?thesis
    by linarith
qed

lemma rel_close_one_bounds:
  assumes "0 \<le> w" and "rel_close 1 v w"
  shows "w / 2 \<le> v" and "v \<le> 2 * w"
proof -
  have "1 / 2 \<le> 1 - unit_roundoff" and "1 + unit_roundoff \<le> 2"
    using unit_roundoff_bounds by simp_all
  then have "w * (1 / 2) \<le> w * (1 - unit_roundoff)" and "w * (1 + unit_roundoff) \<le> w * 2"
    using assms(1) by (simp_all only: mult_left_mono)
  then show "w / 2 \<le> v" and "v \<le> 2 * w"
    using assms(2) by (simp_all add: rel_close_def)
qed

subsection \<open>The accuracy of \<open>distance\<close>\<close>

lemma two_powi_double: "2 * (2 :: real) powi k = 2 powi (k + 1)"
  by (simp add: power_int_add)

lemma two_powi_half: "(2 :: real) powi k / 2 = 2 powi (k - 1)"
  by (simp add: power_int_diff)

lemma two_powi_square: "(2 :: real) powi k * 2 powi k = 2 powi (2 * k)"
  using power_int_add [of "2 :: real" k k] by simp

lemma square_bounds:
  fixes v :: real
  assumes "2 powi i \<le> \<bar>v\<bar>" and "\<bar>v\<bar> \<le> 2 powi j"
  shows "2 powi (2 * i) \<le> \<bar>v * v\<bar>" and "\<bar>v * v\<bar> \<le> 2 powi (2 * j)"
proof -
  have p: "(0 :: real) \<le> 2 powi i"
    by simp
  have "2 powi i * 2 powi i \<le> \<bar>v\<bar> * \<bar>v\<bar>"
    using assms(1) assms(1) p p by (rule mult_mono')
  then show "2 powi (2 * i) \<le> \<bar>v * v\<bar>"
    by (simp only: two_powi_square abs_mult)
  have a: "0 \<le> \<bar>v\<bar>"
    by simp
  have "\<bar>v\<bar> * \<bar>v\<bar> \<le> 2 powi j * 2 powi j"
    using assms(2) assms(2) a a by (rule mult_mono')
  then show "\<bar>v * v\<bar> \<le> 2 powi (2 * j)"
    by (simp only: two_powi_square abs_mult)
qed

lemma square_step:
  assumes "is_finite d" and "is_double d" and "rel_close 1 \<bar>dval d\<bar> w"
    and "w = 0 \<or> 2 powi (- 500) \<le> w \<and> w \<le> 2 powi 500"
  shows "is_finite (dmul d d) \<and> is_double (dmul d d)
    \<and> rel_close 3 (dval (dmul d d)) (w * w) \<and> dval (dmul d d) \<le> 2 powi 1003"
proof -
  define v where "v = dval d * dval d"
  have v_abs: "v = \<bar>dval d\<bar> * \<bar>dval d\<bar>" and v0: "0 \<le> v"
    by (simp_all add: v_def)
  have w0: "0 \<le> w"
    using assms(4) by (auto intro: order_trans [of 0 "2 powi (- 500)" w])
  have range: "(v = 0 \<or> 2 powi (- 1022) \<le> \<bar>v\<bar>) \<and> \<bar>v\<bar> < 2 powi 1023 \<and> v \<le> 2 powi 1002"
  proof (cases "w = 0")
    case True
    then have "\<bar>dval d\<bar> \<le> 0"
      using assms(3) by (simp add: rel_close_def)
    then have "v = 0"
      by (simp add: v_def)
    moreover have "(0 :: real) < 2 powi 1023" and "(0 :: real) \<le> 2 powi 1002"
      by (simp_all only: zero_less_power_int zero_less_numeral less_imp_le)
    ultimately show ?thesis
      by (simp only: abs_zero simp_thms)
  next
    case False
    then have w: "2 powi (- 500) \<le> w" "w \<le> 2 powi 500"
      using assms(4) by simp_all
    have "w / 2 \<le> \<bar>dval d\<bar>" and "\<bar>dval d\<bar> \<le> 2 * w"
      using rel_close_one_bounds [OF w0 assms(3)] by simp_all
    moreover have "2 powi (- 500) / 2 \<le> w / 2" and "2 * w \<le> 2 * 2 powi 500"
      using w by simp_all
    ultimately have d: "2 powi (- 501) \<le> \<bar>dval d\<bar>" "\<bar>dval d\<bar> \<le> 2 powi 501"
      using two_powi_half [of "- 500"] two_powi_double [of 500] by simp_all
    have sq: "2 powi (- 1002) \<le> \<bar>v\<bar>" "\<bar>v\<bar> \<le> 2 powi 1002"
      using square_bounds [OF d] by (simp_all add: v_def)
    have "(2 :: real) powi (- 1022) \<le> 2 powi (- 1002)"
      by (rule power_int_increasing) simp_all
    moreover have "(2 :: real) powi 1002 < 2 powi 1023"
      by (rule power_int_strict_increasing) simp_all
    ultimately have "2 powi (- 1022) \<le> \<bar>v\<bar>" and "\<bar>v\<bar> < 2 powi 1023"
      using sq by (simp_all only: order_trans [of "2 powi (- 1022)" "2 powi (- 1002)" "\<bar>v\<bar>"]
          le_less_trans [of "\<bar>v\<bar>" "2 powi 1002" "2 powi 1023"])
    moreover have "v \<le> 2 powi 1002"
      using sq(2) v0 by (simp only: abs_of_nonneg)
    ultimately show ?thesis
      by (simp only: simp_thms)
  qed
  have acc: "is_finite (dmul d d)" "is_double (dmul d d)" "\<bar>dval (dmul d d) - v\<bar> \<le> \<bar>v\<bar> / 2 ^ 53"
    using dmul_accurate [OF assms(1) assms(1), folded v_def] range by blast+
  have c1: "rel_close 1 (dval (dmul d d)) v"
    using v0 acc(3) by (intro rel_close_rounded) (simp_all only: abs_of_nonneg)
  have "rel_close (2 * 1) (\<bar>dval d\<bar> * \<bar>dval d\<bar>) (w * w)"
    using w0 assms(3) by (rule rel_close_square)
  then have c2: "rel_close 2 v (w * w)"
    by (simp add: v_abs)
  have c3: "rel_close 3 (dval (dmul d d)) (w * w)"
  proof -
    have "rel_close (1 + 2) (dval (dmul d d)) (w * w)"
      using c1 c2 by (rule rel_close_trans)
    moreover have "(1 :: nat) + 2 = 3"
      by simp
    ultimately show ?thesis
      by (simp only:)
  qed
  have "dval (dmul d d) \<le> 2 * v"
    using rel_close_one_bounds(2) [OF v0 c1] .
  also have "\<dots> \<le> 2 * 2 powi 1002"
    using range by simp
  also have "\<dots> = 2 powi 1003"
    using two_powi_double [of 1002] by simp
  finally show ?thesis
    using acc(1,2) c3 by simp
qed

lemma difference_step:
  assumes "is_double a" and "is_double b" and "is_finite a" and "is_finite b"
    and "moderate (dval b - dval a)"
  shows "is_finite (dsub b a) \<and> is_double (dsub b a)
    \<and> rel_close 1 \<bar>dval (dsub b a)\<bar> \<bar>dval b - dval a\<bar>"
proof -
  let ?w = "dval b - dval a"
  have "(2 :: real) powi 500 < 2 powi 1023"
    by (rule power_int_strict_increasing) simp_all
  moreover have "(0 :: real) < 2 powi 1023"
    by (simp only: zero_less_power_int zero_less_numeral)
  ultimately have "\<bar>?w\<bar> < 2 powi 1023"
    using assms(5) unfolding moderate_def by (elim disjE conjE) (simp_all only: abs_zero le_less_trans)
  then have acc: "is_finite (dsub b a)" "is_double (dsub b a)"
      "\<bar>dval (dsub b a) - ?w\<bar> \<le> \<bar>?w\<bar> / 2 ^ 53"
    using dsub_accurate [OF assms(2,1,4,3)] by blast+
  have "\<bar>\<bar>dval (dsub b a)\<bar> - \<bar>?w\<bar>\<bar> \<le> \<bar>dval (dsub b a) - ?w\<bar>"
    by (rule abs_triangle_ineq3)
  then have "\<bar>\<bar>dval (dsub b a)\<bar> - \<bar>?w\<bar>\<bar> \<le> \<bar>?w\<bar> / 2 ^ 53"
    using acc(3) by (rule order_trans)
  then have "rel_close 1 \<bar>dval (dsub b a)\<bar> \<bar>?w\<bar>"
    by (intro rel_close_rounded) simp_all
  then show ?thesis
    using acc(1,2) by simp
qed

lemma distance_accurate:
  assumes "is_double (x a)" "is_double (y a)" "is_double (x b)" "is_double (y b)"
    and "is_finite (x a)" "is_finite (y a)" "is_finite (x b)" "is_finite (y b)"
    and "moderate (dval (x b) - dval (x a))" and "moderate (dval (y b) - dval (y a))"
  shows "is_finite (distance (Some a) (Some b)) \<and> is_double (distance (Some a) (Some b))
    \<and> \<bar>dval (distance (Some a) (Some b)) - euclidean a b\<bar> \<le> euclidean a b / 2 ^ 51"
proof -
  define wx where "wx = \<bar>dval (x b) - dval (x a)\<bar>"
  define wy where "wy = \<bar>dval (y b) - dval (y a)\<bar>"
  define dx where "dx = dsub (x b) (x a)"
  define dy where "dy = dsub (y b) (y a)"
  define sx where "sx = dmul dx dx"
  define sy where "sy = dmul dy dy"
  define s where "s = dadd sx sy"
  have res: "distance (Some a) (Some b) = dsqrt s"
    by (simp add: distance_def Let_def s_def sx_def sy_def dx_def dy_def)
  have wx: "wx = 0 \<or> 2 powi (- 500) \<le> wx \<and> wx \<le> 2 powi 500"
    using assms(9) by (simp add: moderate_def wx_def)
  have wy: "wy = 0 \<or> 2 powi (- 500) \<le> wy \<and> wy \<le> 2 powi 500"
    using assms(10) by (simp add: moderate_def wy_def)
  have dx: "is_finite dx" "is_double dx" "rel_close 1 \<bar>dval dx\<bar> wx"
    using difference_step [OF assms(1,3,5,7,9)] by (simp_all add: dx_def wx_def)
  have dy: "is_finite dy" "is_double dy" "rel_close 1 \<bar>dval dy\<bar> wy"
    using difference_step [OF assms(2,4,6,8,10)] by (simp_all add: dy_def wy_def)
  have sx: "is_finite sx" "is_double sx" "rel_close 3 (dval sx) (wx * wx)"
      "dval sx \<le> 2 powi 1003"
    using square_step [OF dx wx] by (simp_all add: sx_def)
  have sy: "is_finite sy" "is_double sy" "rel_close 3 (dval sy) (wy * wy)"
      "dval sy \<le> 2 powi 1003"
    using square_step [OF dy wy] by (simp_all add: sy_def)
  define S where "S = wx * wx + wy * wy"
  have S0: "0 \<le> S"
    by (simp add: S_def)
  have sx0: "0 \<le> dval sx" and sy0: "0 \<le> dval sy"
    using rel_close_nonneg [OF _ sx(3)] rel_close_nonneg [OF _ sy(3)] by simp_all
  have sum3: "rel_close 3 (dval sx + dval sy) S"
    unfolding S_def using sx(3) sy(3) by (rule rel_close_add)
  have sum0: "0 \<le> dval sx + dval sy"
    using sx0 sy0 by simp
  have "dval sx + dval sy \<le> 2 powi 1003 + 2 powi 1003"
    using sx(4) sy(4) by (rule add_mono)
  also have "\<dots> = 2 powi 1004"
    using two_powi_double [of 1003] by simp
  also have "\<dots> < 2 powi 1023"
    by (rule power_int_strict_increasing) simp_all
  finally have "\<bar>dval sx + dval sy\<bar> < 2 powi 1023"
    using sum0 by (simp only: abs_of_nonneg)
  then have s: "is_finite s" "is_double s"
      "\<bar>dval s - (dval sx + dval sy)\<bar> \<le> \<bar>dval sx + dval sy\<bar> / 2 ^ 53"
    using dadd_finite_accurate [OF sx(2) sy(2) sx(1) sy(1)] by (simp_all add: s_def)
  have "rel_close 1 (dval s) (dval sx + dval sy)"
    using sum0 s(3) by (intro rel_close_rounded) (simp_all only: abs_of_nonneg)
  then have "rel_close (1 + 3) (dval s) S"
    using sum3 by (rule rel_close_trans)
  moreover have "(1 :: nat) + 3 = 2 * 2"
    by simp
  ultimately have s4: "rel_close (2 * 2) (dval s) S"
    by (simp only:)
  have s0: "0 \<le> dval s"
    using S0 s4 by (rule rel_close_nonneg)
  have r: "is_finite (dsqrt s)" "is_double (dsqrt s)"
      "\<bar>dval (dsqrt s) - sqrt (dval s)\<bar> \<le> sqrt (dval s) / 2 ^ 53"
    using dsqrt_accurate [OF s(2) s(1) s0] by simp_all
  have "rel_close 1 (dval (dsqrt s)) (sqrt (dval s))"
    using r(3) by (intro rel_close_rounded) (simp_all add: s0)
  moreover have "rel_close 2 (sqrt (dval s)) (sqrt S)"
    using S0 s4 by (rule rel_close_sqrt)
  ultimately have "rel_close (1 + 2) (dval (dsqrt s)) (sqrt S)"
    by (rule rel_close_trans)
  moreover have "(1 :: nat) + 2 = 3"
    by simp
  ultimately have "rel_close 3 (dval (dsqrt s)) (sqrt S)"
    by (simp only:)
  then have "\<bar>dval (dsqrt s) - sqrt S\<bar> \<le> sqrt S / 2 ^ 51"
    by (intro rel_close_three) (simp_all add: S0)
  moreover have "sqrt S = euclidean a b"
    by (simp add: S_def wx_def wy_def euclidean_def power2_eq_square)
  ultimately show ?thesis
    using r(1,2) by (simp add: res)
qed

lemma deq_pzero_iff: "deq (Finite t n f) pzero = (n = 0)"
  by (simp add: pzero_def zero_def with_sign_def)

lemma dval_eq_0_iff: "(dval (Finite t n f) = 0) = (n = 0)"
  by (simp add: dval_Finite)

lemma ddiv_accurate:
  assumes "is_finite a" and "is_finite b" and "dval b \<noteq> 0"
    and "dval a / dval b = 0 \<or> 2 powi (- 1022) \<le> \<bar>dval a / dval b\<bar>"
    and "\<bar>dval a / dval b\<bar> < 2 powi 1023"
  shows "is_finite (ddiv a b) \<and> is_double (ddiv a b)
    \<and> \<bar>dval (ddiv a b) - dval a / dval b\<bar> \<le> \<bar>dval a / dval b\<bar> / 2 ^ 53"
proof -
  obtain s m e where a: "a = Finite s m e"
    using assms(1) by (cases a) simp_all
  obtain t n f where b: "b = Finite t n f"
    using assms(2) by (cases b) simp_all
  let ?v = "dval a / dval b"
  have n: "0 < n"
    using assms(3) by (simp add: b dval_Finite)
  show ?thesis
  proof (cases "m = 0")
    case True
    then have "ddiv a b = zero (s \<noteq> t)" and "dval a = 0"
      using n by (simp_all add: a b dval_Finite)
    then show ?thesis
      by (simp add: dval_zero is_double_zero)
  next
    case False
    then have m: "0 < m"
      by simp
    have quot: "(2 :: real) powi (e - f) = 2 powi e / 2 powi f"
      by (simp add: power_int_diff)
    have abs_v: "\<bar>?v\<bar> = rv m n (e - f)"
      by (simp add: a b dval_Finite rv_def abs_mult quot)
    have nz: "?v \<noteq> 0"
      using False n by (simp add: a b dval_Finite)
    have res: "ddiv a b = round_double (s \<noteq> t) m n (e - f)"
      using False n by (simp add: a b)
    obtain n' k' where r: "round_double (s \<noteq> t) m n (e - f) = Finite (s \<noteq> t) n' k'"
        "is_double (Finite (s \<noteq> t) n' k')"
        "\<bar>real n' * 2 powi k' - rv m n (e - f)\<bar> \<le> rv m n (e - f) / 2 ^ 53"
    proof -
      have "2 powi (- 1022) \<le> \<bar>?v\<bar>"
        using assms(4) nz by blast
      then have lo: "2 powi (- 1022) \<le> rv m n (e - f)"
        unfolding abs_v .
      have hi: "rv m n (e - f) < 2 powi 1023"
        using assms(5) unfolding abs_v .
      show ?thesis
        using round_double_relative [OF m n hi lo, of "s \<noteq> t"] that by blast
    qed
    have sign: "?v = (if s \<noteq> t then - 1 else 1) * \<bar>?v\<bar>"
      by (simp add: a b dval_Finite abs_mult)
    have "dval (Finite (s \<noteq> t) n' k') - ?v
        = (if s \<noteq> t then - 1 else 1) * (real n' * 2 powi k' - \<bar>?v\<bar>)"
      using sign by (simp add: dval_Finite algebra_simps)
    then have "\<bar>dval (Finite (s \<noteq> t) n' k') - ?v\<bar> = \<bar>real n' * 2 powi k' - \<bar>?v\<bar>\<bar>"
      by (simp add: abs_mult)
    then show ?thesis
      unfolding res r(1) using r(2,3) abs_v by simp
  qed
qed

lemma divide_double_accurate:
  assumes "is_finite a" and "is_finite b" and "dval b \<noteq> 0"
    and "2 powi (- 1022) \<le> \<bar>dval a / dval b\<bar>" and "\<bar>dval a / dval b\<bar> < 2 powi 1023"
  shows "is_finite (divide_double a b)
    \<and> \<bar>dval (divide_double a b) - dval a / dval b\<bar> \<le> \<bar>dval a / dval b\<bar> / 2 ^ 53"
proof -
  obtain t n f where b: "b = Finite t n f"
    using assms(2) by (cases b) simp_all
  have "\<not> deq b pzero"
    using assms(3) by (simp add: b deq_pzero_iff dval_eq_0_iff)
  then have "divide_double a b = ddiv a b"
    by (simp add: divide_double_def)
  then show ?thesis
    using ddiv_accurate [OF assms(1-3)] assms(4,5) by simp
qed

lemma moderate_whole:
  assumes "1 \<le> \<bar>v\<bar>" and "\<bar>v\<bar> \<le> 2 ^ 53"
  shows "moderate v"
proof -
  have "(2 :: real) powi (- 500) \<le> 2 powi 0"
    by (rule power_int_increasing) simp_all
  then have "2 powi (- 500) \<le> \<bar>v\<bar>"
    using assms(1) by simp
  have "(2 :: real) powi 53 \<le> 2 powi 500"
    by (rule power_int_increasing) simp_all
  moreover have "(2 :: real) powi 53 = 2 ^ 53"
    by (rule power_int_numeral)
  ultimately have "\<bar>v\<bar> \<le> 2 powi 500"
    using assms(2) by (simp only: order_trans [of "\<bar>v\<bar>" "2 ^ 53" "2 powi 500"])
  then show ?thesis
    using \<open>2 powi (- 500) \<le> \<bar>v\<bar>\<close> by (simp only: moderate_def simp_thms)
qed

lemma dval_of_whole: "n < 2 ^ 53 \<Longrightarrow> dval (of_whole n) = real n"
proof (cases "n = 0")
  case True
  then show ?thesis
    by (simp add: of_whole_def pzero_def dval_zero)
next
  case False
  assume "n < 2 ^ 53"
  have "(2 :: real) ^ shift_up n * 2 powi (- int (shift_up n)) = 1"
    using power_int_of_nat [of "2 :: real" "shift_up n"]
    by (simp add: power_int_minus)
  then have "real n * 2 ^ shift_up n * 2 powi (- int (shift_up n)) = real n"
    by (simp add: mult.assoc)
  then show ?thesis
    using False by (simp add: of_whole_def dval_Finite)
qed

subsection \<open>The claims\<close>

text \<open>
  Claim C1. For every double \<open>a\<close> (zero, infinite and NaN included),
  \<open>divide_double a\<close> of \<^verbatim>\<open>0.0\<close> is exactly \<^verbatim>\<open>0.0\<close>, and so it is for every divisor
  that compares equal to \<^verbatim>\<open>0.0\<close> (\<^verbatim>\<open>-0.0\<close> is the other one). For every other divisor
  \<open>b\<close> the result is the quotient \<open>ddiv a b\<close>, which for finite operands is the real
  quotient rounded: within one unit roundoff of it while it lies in the normal range.
  The sentinel stands where the quotient itself would be an infinity or NaN.
\<close>

theorem divide_double_masks_zero:
  "divide_double a pzero = pzero
   \<and> divide_double a (zero True) = pzero
   \<and> (deq b pzero \<longrightarrow> divide_double a b = pzero)
   \<and> (\<not> deq b pzero \<longrightarrow> divide_double a b = ddiv a b)
   \<and> (is_finite a \<and> is_finite b \<and> dval b \<noteq> 0
        \<and> 2 powi (- 1022) \<le> \<bar>dval a / dval b\<bar> \<and> \<bar>dval a / dval b\<bar> < 2 powi 1023 \<longrightarrow>
        is_finite (divide_double a b)
        \<and> \<bar>dval (divide_double a b) - dval a / dval b\<bar> \<le> \<bar>dval a / dval b\<bar> / 2 ^ 53)
   \<and> ddiv (of_whole 1) pzero = Infinity False
   \<and> ddiv pzero pzero = NaN"
proof -
  have "divide_double a pzero = pzero" and "divide_double a (zero True) = pzero"
    and "deq b pzero \<longrightarrow> divide_double a b = pzero"
    and "\<not> deq b pzero \<longrightarrow> divide_double a b = ddiv a b"
    and "ddiv (of_whole 1) pzero = Infinity False" and "ddiv pzero pzero = NaN"
    by (simp_all add: divide_double_def pzero_def zero_def with_sign_def of_whole_def)
  moreover have "is_finite a \<and> is_finite b \<and> dval b \<noteq> 0
        \<and> 2 powi (- 1022) \<le> \<bar>dval a / dval b\<bar> \<and> \<bar>dval a / dval b\<bar> < 2 powi 1023 \<longrightarrow>
        is_finite (divide_double a b)
        \<and> \<bar>dval (divide_double a b) - dval a / dval b\<bar> \<le> \<bar>dval a / dval b\<bar> / 2 ^ 53"
    using divide_double_accurate [of a b] by blast
  ultimately show ?thesis
    by blast
qed

text \<open>The theorem at \<open>6 / 3\<close>, at \<open>6 / -0.0\<close> and at \<open>1 / 3\<close>.\<close>

theorem divide_double_masks_zero_witness:
  "divide_double (of_whole 6) (of_whole 3) = of_whole 2
   \<and> divide_double (of_whole 6) (zero True) = pzero
   \<and> \<bar>dval (divide_double (of_whole 1) (of_whole 3)) - 1 / 3\<bar> \<le> \<bar>1 / 3\<bar> / 2 ^ 53"
proof -
  note six = divide_double_masks_zero [of "of_whole 6" "of_whole 3"]
  note one = divide_double_masks_zero [of "of_whole 1" "of_whole 3"]
  have "\<not> deq (of_whole 3) pzero"
    by (simp add: double_eval)
  then have "divide_double (of_whole 6) (of_whole 3) = ddiv (of_whole 6) (of_whole 3)"
    using six by blast
  moreover have "ddiv (of_whole 6) (of_whole 3) = of_whole 2"
    by (simp add: double_eval)
  ultimately have first: "divide_double (of_whole 6) (of_whole 3) = of_whole 2"
    by (simp only:)
  have second: "divide_double (of_whole 6) (zero True) = pzero"
    using six by blast
  have fin: "is_finite (of_whole 1)" "is_finite (of_whole 3)"
    by (simp_all add: of_whole_def)
  have v: "dval (of_whole 1) = 1" "dval (of_whole 3) = 3"
    using dval_of_whole [of 1] dval_of_whole [of 3] by simp_all
  have nz: "dval (of_whole 3) \<noteq> 0"
    by (simp add: v)
  have lo: "2 powi (- 1022) \<le> \<bar>dval (of_whole 1) / dval (of_whole 3)\<bar>"
  proof -
    have "(2 :: real) powi (- 1022) \<le> 2 powi (- 2)"
      by (rule power_int_increasing) simp_all
    also have "\<dots> \<le> \<bar>1 / 3\<bar>"
      by (simp add: power_int_minus)
    finally show ?thesis
      by (simp only: v)
  qed
  have hi: "\<bar>dval (of_whole 1) / dval (of_whole 3)\<bar> < 2 powi 1023"
  proof -
    have "\<bar>1 / 3 :: real\<bar> < 2 powi 0"
      by simp
    also have "\<dots> \<le> 2 powi 1023"
      by (rule power_int_increasing) simp_all
    finally show ?thesis
      by (simp only: v)
  qed
  have "\<bar>dval (divide_double (of_whole 1) (of_whole 3)) - dval (of_whole 1) / dval (of_whole 3)\<bar>
      \<le> \<bar>dval (of_whole 1) / dval (of_whole 3)\<bar> / 2 ^ 53"
    using one fin nz lo hi by blast
  then have third: "\<bar>dval (divide_double (of_whole 1) (of_whole 3)) - 1 / 3\<bar> \<le> \<bar>1 / 3\<bar> / 2 ^ 53"
    by (simp only: v)
  show ?thesis
    using first second third by (simp only: simp_thms)
qed

text \<open>
  Claim C2. For all 32-bit integers \<open>a\<close> and \<open>b\<close>, subtracting \<open>b\<close> from
  \<open>add a b\<close> gives back \<open>a\<close>; the arithmetic wraps modulo \<open>2 ^ 32\<close> and nothing
  checks for overflow.
\<close>

theorem subtract_add_cancel:
  "subtract (add a b) b = a
   \<and> uint (add a b) = (uint a + uint b) mod 2 ^ 32
   \<and> uint (subtract a b) = (uint a - uint b) mod 2 ^ 32"
  by (simp add: add_def subtract_def uint_word_ariths)

text \<open>
  Claim C3, as the code has it. \<open>reverse_string\<close> leaves a null reference and an empty
  string as they are. Applied twice to any NUL-terminated string it restores the storage.
  Applied once to a string of fewer than \<open>2 ^ 31\<close> characters it reverses the characters
  and leaves the terminator and the storage behind it in place; \<^verbatim>\<open>"abc"\<close> becomes
  \<^verbatim>\<open>"cba"\<close>.
\<close>

theorem reverse_string_involution:
  "reverse_string None = Inr None
   \<and> reverse_string (Some (0 # rest)) = Inr (Some (0 # rest))
   \<and> (0 \<notin> set s \<longrightarrow>
        (\<exists>buf. reverse_string (Some (s @ 0 # rest)) = Inr (Some buf)
           \<and> reverse_string (Some buf) = Inr (Some (s @ 0 # rest))))
   \<and> (0 \<notin> set s \<and> length s < 2 ^ 31 \<longrightarrow>
        reverse_string (Some (s @ 0 # rest)) = Inr (Some (rev s @ 0 # rest)))
   \<and> reverse_string (Some (c_str ''abc'')) = Inr (Some (c_str ''cba''))"
proof -
  have "reverse_string None = Inr None"
    and "reverse_string (Some (0 # rest)) = Inr (Some (0 # rest))"
    by (simp_all add: reverse_string_def)
  moreover have "0 \<notin> set s \<longrightarrow>
        (\<exists>buf. reverse_string (Some (s @ 0 # rest)) = Inr (Some buf)
           \<and> reverse_string (Some buf) = Inr (Some (s @ 0 # rest)))"
    using reverse_string_twice by blast
  moreover have "0 \<notin> set s \<and> length s < 2 ^ 31 \<longrightarrow>
        reverse_string (Some (s @ 0 # rest)) = Inr (Some (rev s @ 0 # rest))"
    by (simp add: reverse_string_c_string reversed_prefix_small)
  moreover have "reverse_string (Some (c_str ''abc'')) = Inr (Some (c_str ''cba''))"
    using reverse_string_c_string [of "[97, 98, 99]" "[]"]
    by (simp add: c_str_def reversed_prefix_small)
  ultimately show ?thesis
    by blast
qed

text \<open>The theorem at the strings \<^verbatim>\<open>"xy"\<close> and \<^verbatim>\<open>"yx"\<close>, followed by one more byte.\<close>

theorem reverse_string_involution_witness:
  "reverse_string (Some [120, 121, 0, 122]) = Inr (Some [121, 120, 0, 122])
   \<and> reverse_string (Some [121, 120, 0, 122]) = Inr (Some [120, 121, 0, 122])"
  using reverse_string_involution [of "[122]" "[120, 121]"]
    reverse_string_involution [of "[122]" "[121, 120]"]
  by simp

text \<open>
  Claim C3 as stated fails for a string of \<open>2 ^ 31\<close> characters: its length is negative
  as an \<^verbatim>\<open>int\<close>, the loop body never runs, and the string \<^verbatim>\<open>"baa...a"\<close> stays as it is,
  which is not its reversal.
\<close>

theorem reverse_string_counterexample:
  "reverse_string (Some ((98 # replicate 2147483647 97) @ [0]))
     = Inr (Some ((98 # replicate 2147483647 97) @ [0]))
   \<and> rev (98 # replicate 2147483647 (97 :: c_char)) \<noteq> 98 # replicate 2147483647 97"
proof
  have "reversed_prefix (length (98 # replicate 2147483647 (97 :: c_char))) = 0"
    by (simp add: reversed_prefix_def sint_of_nat_c_int)
  moreover have "0 \<notin> set (98 # replicate 2147483647 (97 :: c_char))"
    by simp
  ultimately show "reverse_string (Some ((98 # replicate 2147483647 97) @ [0]))
     = Inr (Some ((98 # replicate 2147483647 97) @ [0]))"
    by (rule reverse_string_unchanged [rotated])
next
  show "rev (98 # replicate 2147483647 (97 :: c_char)) \<noteq> 98 # replicate 2147483647 97"
    by (rule rev_b_as) simp
qed

text \<open>
  Claim C4. \<open>sum_array\<close> returns 0 for a null reference and for a count that is not
  positive. For a positive count \<open>sz\<close> and an array of at least \<open>sz\<close> elements it returns
  the sum of the first \<open>sz\<close> elements, the addition wrapping modulo \<open>2 ^ 32\<close>. The sum of
  \<open>[1, 2, 3, 4]\<close> is 10, that of no elements is 0.
\<close>

theorem sum_array_sums:
  "sum_array None sz = Inr 0
   \<and> (sz \<le>s 0 \<longrightarrow> sum_array arr sz = Inr 0)
   \<and> (0 <s sz \<and> nat (sint sz) \<le> length a \<longrightarrow>
        sum_array (Some a) sz = Inr (sum_list (take (nat (sint sz)) a))
        \<and> uint (sum_list (take (nat (sint sz)) a))
            = sum_list (map uint (take (nat (sint sz)) a)) mod 2 ^ 32)
   \<and> sum_array (Some [1, 2, 3, 4]) 4 = Inr 10
   \<and> sum_array (Some []) 0 = Inr 0"
proof -
  have "sum_array None sz = Inr 0"
    by (simp add: sum_array_def)
  moreover have "sz \<le>s 0 \<longrightarrow> sum_array arr sz = Inr 0"
    by (simp add: sum_array_def split: option.split)
  moreover have "0 <s sz \<and> nat (sint sz) \<le> length a \<longrightarrow>
        sum_array (Some a) sz = Inr (sum_list (take (nat (sint sz)) a))
        \<and> uint (sum_list (take (nat (sint sz)) a))
            = sum_list (map uint (take (nat (sint sz)) a)) mod 2 ^ 32"
    using sum_array_take [of sz a] uint_sum_list by blast
  moreover have "sum_array (Some [1, 2, 3, 4]) 4 = Inr 10"
    using sum_array_take [of 4 "[1, 2, 3, 4]"] by (simp add: word_sless_alt)
  moreover have "sum_array (Some []) 0 = Inr 0"
    by (simp add: sum_array_def)
  ultimately show ?thesis
    by blast
qed

text \<open>The theorem where the sum wraps, and at a negative count.\<close>

theorem sum_array_sums_witness:
  "sum_array (Some [2147483647, 1, 5]) 2 = Inr (- 2147483648)
   \<and> sum_array (Some [7, 8]) (- 1) = Inr 0"
proof -
  have "(2147483648 :: c_int) = - 2147483648"
    by simp
  then show ?thesis
    using sum_array_sums [of 2 "Some [7, 8]" "[2147483647, 1, 5]"]
      sum_array_sums [of "- 1" "Some [7, 8]" "[]"]
    by (simp add: word_sless_alt word_sle_eq)
qed

text \<open>
  Claim C5. \<open>double_array\<close> changes nothing for a null reference and for a count that
  is not positive. For a positive count \<open>sz\<close> and an array of at least \<open>sz\<close> elements it
  replaces each of the first \<open>sz\<close> elements \<open>e\<close> by \<open>2 * e\<close> (wrapping modulo
  \<open>2 ^ 32\<close>) and leaves the elements behind them as they are. \<open>[1, 2, 3]\<close> becomes
  \<open>[2, 4, 6]\<close>.
\<close>

theorem double_array_doubles:
  "double_array None sz = Inr None
   \<and> (sz \<le>s 0 \<longrightarrow> double_array (Some a) sz = Inr (Some a))
   \<and> (0 <s sz \<and> nat (sint sz) \<le> length a \<longrightarrow>
        double_array (Some a) sz
          = Inr (Some (map (\<lambda>e. 2 * e) (take (nat (sint sz)) a) @ drop (nat (sint sz)) a)))
   \<and> double_array (Some [1, 2, 3]) 3 = Inr (Some [2, 4, 6])"
proof -
  have "double_array None sz = Inr None"
    by (simp add: double_array_def)
  moreover have "sz \<le>s 0 \<longrightarrow> double_array (Some a) sz = Inr (Some a)"
    by (simp add: double_array_def)
  moreover have "0 <s sz \<and> nat (sint sz) \<le> length a \<longrightarrow>
        double_array (Some a) sz
          = Inr (Some (map (\<lambda>e. 2 * e) (take (nat (sint sz)) a) @ drop (nat (sint sz)) a))"
    using double_array_map [of sz a] by blast
  moreover have "double_array (Some [1, 2, 3]) 3 = Inr (Some [2, 4, 6])"
    using double_array_map [of 3 "[1, 2, 3]"] by (simp add: word_sless_alt)
  ultimately show ?thesis
    by blast
qed

text \<open>The theorem where a product wraps, and at count 0.\<close>

theorem double_array_doubles_witness:
  "double_array (Some [3, 1073741824, 9]) 2 = Inr (Some [6, - 2147483648, 9])
   \<and> double_array (Some [3, 4]) 0 = Inr (Some [3, 4])"
proof -
  have "(2147483648 :: c_int) = - 2147483648"
    by simp
  then show ?thesis
    using double_array_doubles [of 2 "[3, 1073741824, 9]"]
      double_array_doubles [of 0 "[3, 4]"]
    by (simp add: word_sless_alt word_sle_eq)
qed

text \<open>
  Claim C6. \<open>apply_operation\<close> with a callback returns what one call of the callback
  on \<open>(a, b)\<close> returns and leaves the world as that one call leaves it: a callback that
  records its calls has recorded exactly the call \<open>(a, b)\<close>. With no callback it returns
  0 and nothing is called. With \<open>add\<close> as the callback, \<open>apply_operation 2 3\<close> is 5.
\<close>

theorem apply_operation_invokes_once:
  "apply_operation a b (Some f) s = f a b s
   \<and> apply_operation a b None s = (0, s)
   \<and> apply_operation a b (Some (recording f)) (s, calls)
       = (fst (f a b s), snd (f a b s), calls @ [(a, b)])
   \<and> apply_operation a b None (s, calls) = (0, s, calls)
   \<and> apply_operation a b (Some (pure_callback g)) s = (g a b, s)
   \<and> apply_operation 2 3 (Some (pure_callback add)) s = (5, s)"
  by (simp add: apply_operation_def recording_def pure_callback_def add_def)

text \<open>
  Claim C7, as the code has it. \<open>string_length\<close> of a null reference is 0. Of a
  NUL-terminated string it is the character count cast to \<^verbatim>\<open>int\<close>: the count itself
  whenever the string has fewer than \<open>2 ^ 31\<close> characters, and the count reduced to 32
  bits otherwise. \<open>string_length\<close> of \<^verbatim>\<open>"hello"\<close> is 5.
\<close>

theorem string_length_counts:
  "string_length None = Inr 0
   \<and> (0 \<notin> set s \<longrightarrow>
        string_length (Some (s @ 0 # rest)) = Inr (word_of_nat (length s)))
   \<and> (0 \<notin> set s \<and> length s < 2 ^ 31 \<longrightarrow>
        (\<exists>r. string_length (Some (s @ 0 # rest)) = Inr r \<and> sint r = int (length s)))
   \<and> string_length (Some (c_str ''hello'')) = Inr 5"
  by (simp add: string_length_def strlen_append sint_of_nat_small c_str_def)

text \<open>The theorem at the string \<^verbatim>\<open>"hi"\<close>, with a byte of other storage behind it.\<close>

theorem string_length_counts_witness:
  "string_length (Some [104, 105, 0, 7]) = Inr 2 \<and> sint (2 :: c_int) = 2"
  using string_length_counts [of "[104, 105]" "[7]"] by simp

text \<open>
  Claim C7 as stated fails for a string of \<open>2 ^ 31\<close> characters: no \<^verbatim>\<open>int\<close> is its count,
  and the cast returns a negative number.
\<close>

theorem string_length_counterexample:
  "string_length (Some (replicate (2 ^ 31) 97 @ [0])) = Inr (- 2147483648)
   \<and> sint (- 2147483648 :: c_int) < 0
   \<and> length (replicate (2 ^ 31) (97 :: c_char)) = 2147483648"
  using strlen_append [of "replicate (2 ^ 31) 97" "[]"]
  by (simp add: string_length_def)

text \<open>
  Claim C8, as the code has it. \<open>distance\<close> is \<^verbatim>\<open>0.0\<close> when either reference is null.
  For points with finite coordinates, the distance of a point from itself is \<^verbatim>\<open>0.0\<close>,
  and the distance of any two points is a number not below zero or plus infinity, never
  NaN. Where each coordinate difference is zero or of a magnitude from \<open>2 ^ -500\<close> to
  \<open>2 ^ 500\<close>, the result is finite and lies within \<open>2 ^ -51\<close> of the distance of the
  plane, relative to that distance: four roundings. From \<open>(0, 0)\<close> to \<open>(3, 4)\<close> it is
  \<open>5\<close>, the distance of the plane itself.
\<close>

theorem distance_properties:
  "distance None q = pzero \<and> distance p None = pzero
   \<and> (is_finite (x a) \<and> is_finite (y a) \<longrightarrow> distance (Some a) (Some a) = pzero)
   \<and> (is_finite (x a) \<and> is_finite (y a) \<and> is_finite (x b) \<and> is_finite (y b) \<longrightarrow>
        distance (Some a) (Some b) = Infinity False
        \<or> (\<exists>m e. distance (Some a) (Some b) = Finite False m e))
   \<and> (is_finite (x a) \<and> is_finite (y a) \<and> is_finite (x b) \<and> is_finite (y b)
        \<and> is_double (x a) \<and> is_double (y a) \<and> is_double (x b) \<and> is_double (y b)
        \<and> moderate (dval (x b) - dval (x a)) \<and> moderate (dval (y b) - dval (y a)) \<longrightarrow>
        is_finite (distance (Some a) (Some b))
        \<and> \<bar>dval (distance (Some a) (Some b)) - euclidean a b\<bar> \<le> euclidean a b / 2 ^ 51)
   \<and> distance (Some \<lparr>x = pzero, y = pzero\<rparr>) (Some \<lparr>x = of_whole 3, y = of_whole 4\<rparr>)
       = of_whole 5
   \<and> dval (of_whole 5) = euclidean \<lparr>x = pzero, y = pzero\<rparr> \<lparr>x = of_whole 3, y = of_whole 4\<rparr>"
proof -
  have "distance None q = pzero" and "distance p None = pzero"
    by (simp_all add: distance_def split: option.split)
  moreover have "is_finite (x a) \<and> is_finite (y a) \<longrightarrow> distance (Some a) (Some a) = pzero"
    by (simp add: distance_self)
  moreover have "is_finite (x a) \<and> is_finite (y a) \<and> is_finite (x b) \<and> is_finite (y b) \<longrightarrow>
        distance (Some a) (Some b) = Infinity False
        \<or> (\<exists>m e. distance (Some a) (Some b) = Finite False m e)"
    using distance_not_below_zero [of a b] not_below_zero_cases by blast
  moreover have "is_finite (x a) \<and> is_finite (y a) \<and> is_finite (x b) \<and> is_finite (y b)
        \<and> is_double (x a) \<and> is_double (y a) \<and> is_double (x b) \<and> is_double (y b)
        \<and> moderate (dval (x b) - dval (x a)) \<and> moderate (dval (y b) - dval (y a)) \<longrightarrow>
        is_finite (distance (Some a) (Some b))
        \<and> \<bar>dval (distance (Some a) (Some b)) - euclidean a b\<bar> \<le> euclidean a b / 2 ^ 51"
    using distance_accurate [of a b] by blast
  moreover have "distance (Some \<lparr>x = pzero, y = pzero\<rparr>) (Some \<lparr>x = of_whole 3, y = of_whole 4\<rparr>)
       = of_whole 5"
  proof -
    have "dsub (of_whole 3) pzero = of_whole 3" and "dsub (of_whole 4) pzero = of_whole 4"
      by (simp_all add: double_eval)
    moreover have "dmul (of_whole 3) (of_whole 3) = of_whole 9"
      and "dmul (of_whole 4) (of_whole 4) = of_whole 16"
      by (simp_all add: double_eval)
    moreover have "dadd (of_whole 9) (of_whole 16) = of_whole 25"
      by (simp add: double_eval)
    moreover have "dsqrt (of_whole 25) = of_whole 5"
      by (simp add: double_eval)
    ultimately show ?thesis
      by (simp add: distance_def)
  qed
  moreover have "dval (of_whole 5)
      = euclidean \<lparr>x = pzero, y = pzero\<rparr> \<lparr>x = of_whole 3, y = of_whole 4\<rparr>"
  proof -
    have "dval (of_whole 5) = 5" "dval (of_whole 3) = 3" "dval (of_whole 4) = 4" "dval pzero = 0"
      using dval_of_whole [of 5] dval_of_whole [of 3] dval_of_whole [of 4]
      by (simp_all add: pzero_def dval_zero)
    moreover have "sqrt ((3 - 0)\<^sup>2 + (4 - 0)\<^sup>2) = (5 :: real)"
      using real_sqrt_abs [of 5] by simp
    ultimately show ?thesis
      by (simp only: euclidean_def Point.simps)
  qed
  ultimately show ?thesis
    by blast
qed

text \<open>The theorem at the points \<open>(1, 2)\<close> and \<open>(4, 6)\<close>.\<close>

theorem distance_properties_witness:
  "distance (Some \<lparr>x = of_whole 1, y = of_whole 2\<rparr>) (Some \<lparr>x = of_whole 1, y = of_whole 2\<rparr>)
     = pzero
   \<and> (distance (Some \<lparr>x = of_whole 1, y = of_whole 2\<rparr>) (Some \<lparr>x = of_whole 4, y = of_whole 6\<rparr>)
        = Infinity False
      \<or> (\<exists>m e. distance (Some \<lparr>x = of_whole 1, y = of_whole 2\<rparr>)
                  (Some \<lparr>x = of_whole 4, y = of_whole 6\<rparr>) = Finite False m e))
   \<and> \<bar>dval (distance (Some \<lparr>x = of_whole 1, y = of_whole 2\<rparr>)
               (Some \<lparr>x = of_whole 4, y = of_whole 6\<rparr>))
       - euclidean \<lparr>x = of_whole 1, y = of_whole 2\<rparr> \<lparr>x = of_whole 4, y = of_whole 6\<rparr>\<bar>
       \<le> euclidean \<lparr>x = of_whole 1, y = of_whole 2\<rparr> \<lparr>x = of_whole 4, y = of_whole 6\<rparr> / 2 ^ 51"
proof -
  have fin: "is_finite (of_whole 1)" "is_finite (of_whole 2)" "is_finite (of_whole 4)"
      "is_finite (of_whole 6)"
    by (simp_all add: of_whole_def)
  have dbl: "is_double (of_whole 1)" "is_double (of_whole 2)" "is_double (of_whole 4)"
      "is_double (of_whole 6)"
    by (simp_all add: of_whole_def shift_up_def bitlen_numeral_eval)
  have "dval (of_whole 1) = 1" "dval (of_whole 2) = 2" "dval (of_whole 4) = 4"
      "dval (of_whole 6) = 6"
    using dval_of_whole [of 1] dval_of_whole [of 2] dval_of_whole [of 4] dval_of_whole [of 6]
    by simp_all
  then have md: "moderate (dval (of_whole 4) - dval (of_whole 1))"
      "moderate (dval (of_whole 6) - dval (of_whole 2))"
    by (simp_all add: moderate_whole)
  show ?thesis
    using distance_properties
      [where a = "\<lparr>x = of_whole 1, y = of_whole 2\<rparr>" and b = "\<lparr>x = of_whole 4, y = of_whole 6\<rparr>"]
      fin dbl md
    by (simp only: Point.simps simp_thms)
qed

text \<open>
  Claim C8 as stated fails for the points \<open>(0, 0)\<close> and \<open>(2 ^ 600, 0)\<close>: their distance
  \<open>2 ^ 600\<close> is a double, but the square of the difference overflows and \<open>distance\<close>
  returns plus infinity.
\<close>

theorem distance_overflow_counterexample:
  "distance (Some \<lparr>x = pzero, y = pzero\<rparr>) (Some \<lparr>x = Finite False (2 ^ 52) 548, y = pzero\<rparr>)
     = Infinity False
   \<and> euclidean \<lparr>x = pzero, y = pzero\<rparr> \<lparr>x = Finite False (2 ^ 52) 548, y = pzero\<rparr>
       = dval (Finite False (2 ^ 52) 548)
   \<and> is_double (Finite False (2 ^ 52) 548)"
proof -
  have "dsub (Finite False (2 ^ 52) 548) pzero = Finite False (2 ^ 52) 548"
    and "dsub pzero pzero = pzero"
    by (simp_all add: double_eval)
  moreover have "dmul (Finite False (2 ^ 52) 548) (Finite False (2 ^ 52) 548) = Infinity False"
    and "dmul pzero pzero = pzero"
    by (simp_all add: double_eval)
  moreover have "dadd (Infinity False) pzero = Infinity False"
    and "dsqrt (Infinity False) = Infinity False"
    by (simp_all add: pzero_def zero_def)
  ultimately have "distance (Some \<lparr>x = pzero, y = pzero\<rparr>)
      (Some \<lparr>x = Finite False (2 ^ 52) 548, y = pzero\<rparr>) = Infinity False"
    by (simp add: distance_def)
  moreover have "euclidean \<lparr>x = pzero, y = pzero\<rparr> \<lparr>x = Finite False (2 ^ 52) 548, y = pzero\<rparr>
       = dval (x \<lparr>x = Finite False (2 ^ 52) 548, y = pzero\<rparr>)"
    by (rule euclidean_along_x) (simp_all add: dval_def pzero_def zero_def)
  then have "euclidean \<lparr>x = pzero, y = pzero\<rparr> \<lparr>x = Finite False (2 ^ 52) 548, y = pzero\<rparr>
       = dval (Finite False (2 ^ 52) 548)"
    by (simp only: Point.simps)
  moreover have "is_double (Finite False (2 ^ 52) 548)"
    by simp
  ultimately show ?thesis
    by (simp only: simp_thms)
qed

text \<open>
  Claim C9. For every finite double \<open>a\<close>, \<open>multiply_double a\<close> of \<^verbatim>\<open>0.0\<close> compares
  equal to \<^verbatim>\<open>0.0\<close>: the product is the zero that has the sign of \<open>a\<close>.
\<close>

theorem multiply_double_by_zero:
  "(is_finite a \<longrightarrow> deq (multiply_double a pzero) pzero)
   \<and> multiply_double (Finite s m e) pzero = zero s
   \<and> deq (zero s) pzero"
proof -
  have "multiply_double (Finite s m e) pzero = zero s" for s m e
    by (simp add: multiply_double_def pzero_def zero_def)
  moreover have "deq (zero s) pzero" for s
    by (simp add: pzero_def zero_def with_sign_def)
  ultimately show ?thesis
    by (cases a) simp_all
qed

text \<open>The theorem at \<open>a = -3.0\<close>, where the product is \<^verbatim>\<open>-0.0\<close>.\<close>

theorem multiply_double_by_zero_witness:
  "deq (multiply_double (Finite True 6755399441055744 (- 51)) pzero) pzero
   \<and> multiply_double (Finite True 6755399441055744 (- 51)) pzero = zero True"
  using multiply_double_by_zero [of "Finite True 6755399441055744 (- 51)" True 6755399441055744 "- 51"]
  by simp

text \<open>
  Claim C10, as the code has it. For every NUL-terminated string, \<open>reverse_string\<close>
  keeps the length and the multiset of the characters, the terminator stays where it
  was (so \<^verbatim>\<open>strlen\<close> is unchanged) and the storage behind it is untouched. The result is
  the reversal whenever the string has fewer than \<open>2 ^ 31\<close> characters.
\<close>

theorem reverse_string_permutes:
  "0 \<notin> set s \<longrightarrow>
     (\<exists>s'. reverse_string (Some (s @ 0 # rest)) = Inr (Some (s' @ 0 # rest))
        \<and> length s' = length s \<and> mset s' = mset s
        \<and> strlen (s' @ 0 # rest) = strlen (s @ 0 # rest)
        \<and> (length s < 2 ^ 31 \<longrightarrow> s' = rev s))"
proof
  assume s: "0 \<notin> set s"
  let ?k = "reversed_prefix (length s)"
  let ?t = "rev (take ?k s) @ drop ?k s"
  have k: "?k \<le> length s"
    by (rule reversed_prefix_le)
  have "reverse_string (Some (s @ 0 # rest)) = Inr (Some (?t @ 0 # rest))"
    using reverse_string_c_string [OF s, of rest] by simp
  moreover have "length ?t = length s"
    using k by simp
  moreover have m: "mset ?t = mset s"
    by (rule mset_prefix_rev)
  moreover have "strlen (?t @ 0 # rest) = strlen (s @ 0 # rest)"
  proof -
    have "set ?t = set s"
      using m by (rule mset_eq_setD)
    then have "0 \<notin> set ?t"
      using s by simp
    then show ?thesis
      using s k strlen_append [of ?t rest] by (simp add: strlen_append)
  qed
  moreover have "length s < 2 ^ 31 \<longrightarrow> ?t = rev s"
    by (simp add: reversed_prefix_small)
  ultimately show "\<exists>s'. reverse_string (Some (s @ 0 # rest)) = Inr (Some (s' @ 0 # rest))
        \<and> length s' = length s \<and> mset s' = mset s
        \<and> strlen (s' @ 0 # rest) = strlen (s @ 0 # rest)
        \<and> (length s < 2 ^ 31 \<longrightarrow> s' = rev s)"
    by blast
qed

text \<open>The theorem at the string \<^verbatim>\<open>"hi!"\<close>, followed by one more byte.\<close>

theorem reverse_string_permutes_witness:
  "\<exists>s'. reverse_string (Some [104, 105, 33, 0, 9]) = Inr (Some (s' @ [0, 9]))
     \<and> length s' = 3 \<and> mset s' = mset [104, 105, 33] \<and> s' = [33, 105, 104]"
  using reverse_string_permutes [of "[104, 105, 33]" "[9]"] by simp

text \<open>
  Claim C10 as stated (the result is the reversal) fails for a string of \<open>2 ^ 31 + 1\<close>
  characters, which the call leaves unchanged.
\<close>

theorem reverse_string_prefix_counterexample:
  "reverse_string (Some ((98 # replicate 2147483648 97) @ [0]))
     = Inr (Some ((98 # replicate 2147483648 97) @ [0]))
   \<and> rev (98 # replicate 2147483648 (97 :: c_char)) \<noteq> 98 # replicate 2147483648 97"
proof
  have "reversed_prefix (length (98 # replicate 2147483648 (97 :: c_char))) = 0"
    by (simp add: reversed_prefix_def sint_of_nat_c_int)
  moreover have "0 \<notin> set (98 # replicate 2147483648 (97 :: c_char))"
    by simp
  ultimately show "reverse_string (Some ((98 # replicate 2147483648 97) @ [0]))
     = Inr (Some ((98 # replicate 2147483648 97) @ [0]))"
    by (rule reverse_string_unchanged [rotated])
next
  show "rev (98 # replicate 2147483648 (97 :: c_char)) \<noteq> 98 # replicate 2147483648 97"
    by (rule rev_b_as) simp
qed

end
